theory Spec2Isabelle
  imports
    Main
    "HOL-Library.Word"
    "HOL-Library.Multiset"
    "HOL-Library.Sublist"
    "HOL-Library.List_Lexorder"
begin

section \<open>Strings of the JavaScript runtime\<close>

text \<open>
  A JavaScript string is a sequence of UTF-16 code units. The regular expressions of
  \<^verbatim>\<open>index.js\<close> carry no \<^verbatim>\<open>u\<close> flag, so they match code unit by code unit;
  only \<^verbatim>\<open>toLowerCase\<close> reads a surrogate pair as one code point.
\<close>

type_synonym unit16 = "16 word"
type_synonym jsstring = "unit16 list"

text \<open>An ASCII literal of the source as a string of code units.\<close>

definition lit :: "string \<Rightarrow> jsstring" where
  "lit s = map (\<lambda>c. of_nat (of_char c)) s"

text \<open>
  A value read from a field that holds text: the field may be missing
  (\<^verbatim>\<open>undefined\<close>) or \<^verbatim>\<open>null\<close>.
\<close>

datatype jstext = Undefined | Null | Str jsstring

section \<open>Comment Normalizer: \<^verbatim>\<open>normalizeText\<close>\<close>

text \<open>
  White space as the \<^verbatim>\<open>\s\<close> class and \<^verbatim>\<open>String.prototype.trim\<close> define it:
  TAB, LF, VT, FF, CR, SPACE, NBSP, U+1680, U+2000..U+200A, U+2028, U+2029, U+202F,
  U+205F, U+3000 and U+FEFF.
\<close>

definition isSpace :: "unit16 \<Rightarrow> bool" where
  "isSpace c \<longleftrightarrow>
     c = 0x09 \<or> c = 0x0A \<or> c = 0x0B \<or> c = 0x0C \<or> c = 0x0D \<or> c = 0x20 \<or> c = 0xA0 \<or>
     c = 0x1680 \<or> (0x2000 \<le> c \<and> c \<le> 0x200A) \<or> c = 0x2028 \<or> c = 0x2029 \<or>
     c = 0x202F \<or> c = 0x205F \<or> c = 0x3000 \<or> c = 0xFEFF"

text \<open>The class \<^verbatim>\<open>[ \t]\<close>.\<close>

definition isBlank :: "unit16 \<Rightarrow> bool" where
  "isBlank c \<longleftrightarrow> c = 0x20 \<or> c = 0x09"

text \<open>The class of U+200B, U+200C, U+200D and U+FEFF (zero-width characters).\<close>

definition isZeroWidth :: "unit16 \<Rightarrow> bool" where
  "isZeroWidth c \<longleftrightarrow> c = 0x200B \<or> c = 0x200C \<or> c = 0x200D \<or> c = 0xFEFF"

text \<open>The first \<^verbatim>\<open>.replace\<close>: every U+00A0 (NBSP) becomes a space.\<close>

definition replaceNbsp :: "jsstring \<Rightarrow> jsstring" where
  "replaceNbsp s = map (\<lambda>c. if c = 0xA0 then 0x20 else c) s"

text \<open>
  \<^verbatim>\<open>.toLowerCase()\<close> belongs to the runtime, which defines it in three steps. The
  string is read as code points (\<^verbatim>\<open>StringToCodePoints\<close>): a high surrogate directly
  followed by a low surrogate is one code point, any other code unit is the code point of
  its own value. Each code point is replaced by its lower-case mapping (the
  \<^verbatim>\<open>toLowercase\<close> of the Unicode Default Case Conversion). The code points are
  written back as code units (\<^verbatim>\<open>CodePointsToString\<close>). The three steps are
  modelled as they are defined; the Unicode Character Database that the second step
  reads is not part of the program and is a parameter of the model.
\<close>

definition isHigh :: "unit16 \<Rightarrow> bool" where
  "isHigh c \<longleftrightarrow> 0xD800 \<le> c \<and> c \<le> 0xDBFF"

definition isLow :: "unit16 \<Rightarrow> bool" where
  "isLow c \<longleftrightarrow> 0xDC00 \<le> c \<and> c \<le> 0xDFFF"

text \<open>The code point of a surrogate pair.\<close>

definition pairValue :: "unit16 \<Rightarrow> unit16 \<Rightarrow> int" where
  "pairValue h l = 0x10000 + (uint h - 0xD800) * 0x400 + (uint l - 0xDC00)"

fun toCodePoints :: "jsstring \<Rightarrow> int list" where
  "toCodePoints [] = []"
| "toCodePoints [c] = [uint c]"
| "toCodePoints (h # l # cs) =
     (if isHigh h \<and> isLow l then pairValue h l # toCodePoints cs
      else uint h # toCodePoints (l # cs))"

fun fromCodePoints :: "int list \<Rightarrow> jsstring" where
  "fromCodePoints [] = []"
| "fromCodePoints (cp # cps) =
     (if cp < 0x10000 then [of_int cp]
      else [of_int (0xD800 + (cp - 0x10000) div 0x400),
            of_int (0xDC00 + (cp - 0x10000) mod 0x400)]) @
     fromCodePoints cps"

text \<open>
  What the case conversion reads in the Unicode Character Database: the lower-case
  mapping of a code point (one or more code points; the code point itself when it has
  no mapping) and the properties Cased and Case_Ignorable.
\<close>

record unicode_data =
  uc_lower :: "int \<Rightarrow> int list"
  uc_cased :: "int \<Rightarrow> bool"
  uc_ignorable :: "int \<Rightarrow> bool"

text \<open>
  The one mapping that depends on the context: U+03A3 (capital sigma) becomes U+03C2
  (final sigma) under the condition Final_Sigma, and U+03C3 otherwise. Final_Sigma holds
  when the sigma is preceded by a cased letter and then zero or more case-ignorable
  characters, and is not followed by zero or more case-ignorable characters and then a
  cased letter. \<open>afterCased\<close> reads a list of code points away from the sigma.
\<close>

fun afterCased :: "unicode_data \<Rightarrow> int list \<Rightarrow> bool" where
  "afterCased ucd [] = False"
| "afterCased ucd (c # cs) = (uc_cased ucd c \<or> (uc_ignorable ucd c \<and> afterCased ucd cs))"

definition finalSigma :: "unicode_data \<Rightarrow> int list \<Rightarrow> int list \<Rightarrow> bool" where
  "finalSigma ucd passed ahead \<longleftrightarrow> afterCased ucd passed \<and> \<not> afterCased ucd ahead"

text \<open>
  The mapping of the code points from left to right; \<open>passed\<close> holds the code points
  already passed, the nearest first.
\<close>

fun lowerCodePoints :: "unicode_data \<Rightarrow> int list \<Rightarrow> int list \<Rightarrow> int list" where
  "lowerCodePoints ucd passed [] = []"
| "lowerCodePoints ucd passed (c # ahead) =
     (if c = 0x3A3 then (if finalSigma ucd passed ahead then [0x3C2] else [0x3C3])
      else uc_lower ucd c) @
     lowerCodePoints ucd (c # passed) ahead"

definition toLowerCase :: "unicode_data \<Rightarrow> jsstring \<Rightarrow> jsstring" where
  "toLowerCase ucd s = fromCodePoints (lowerCodePoints ucd [] (toCodePoints s))"

text \<open>The second \<^verbatim>\<open>.replace\<close>: the zero-width characters are removed.\<close>

definition stripZeroWidth :: "jsstring \<Rightarrow> jsstring" where
  "stripZeroWidth s = filter (\<lambda>c. \<not> isZeroWidth c) s"

text \<open>
  \<^verbatim>\<open>.replace(/[ \t]+/g, ' ')\<close>: scanning from the left, a maximal run of spaces
  and tabs becomes one space.
\<close>

function collapseBlanks :: "jsstring \<Rightarrow> jsstring" where
  "collapseBlanks [] = []"
| "collapseBlanks (c # cs) =
     (if isBlank c then 0x20 # collapseBlanks (dropWhile isBlank cs)
      else c # collapseBlanks cs)"
  by pat_completeness auto
termination
  by (relation "measure length") (auto simp: length_dropWhile_le less_Suc_eq_le)

text \<open>
  \<^verbatim>\<open>.replace(/\s*\n\s*/g, '\n')\<close>: at each position the greedy \<^verbatim>\<open>\s*\<close> takes the
  whole white-space run that starts there and backtracks to its last line feed; the match
  succeeds iff that run holds a line feed, and then covers the run to its end. Otherwise
  the code unit is copied and the scan moves one position on.
\<close>

function collapseNewlines :: "jsstring \<Rightarrow> jsstring" where
  "collapseNewlines [] = []"
| "collapseNewlines (c # cs) =
     (if 0x0A \<in> set (takeWhile isSpace (c # cs))
      then 0x0A # collapseNewlines (dropWhile isSpace (c # cs))
      else c # collapseNewlines cs)"
  by pat_completeness auto
termination
  by (relation "measure length")
     (auto simp: length_dropWhile_le less_Suc_eq_le split: if_splits)

text \<open>\<^verbatim>\<open>.trim()\<close>\<close>

definition trim :: "jsstring \<Rightarrow> jsstring" where
  "trim s = rev (dropWhile isSpace (rev (dropWhile isSpace s)))"

text \<open>\<^verbatim>\<open>(s || '')\<close>: a missing, null or empty text is the empty string.\<close>

fun orEmpty :: "jstext \<Rightarrow> jsstring" where
  "orEmpty Undefined = []"
| "orEmpty Null = []"
| "orEmpty (Str s) = s"

definition normalizeText :: "unicode_data \<Rightarrow> jstext \<Rightarrow> jsstring" where
  "normalizeText ucd s =
     trim (collapseNewlines (collapseBlanks (stripZeroWidth
       (toLowerCase ucd (replaceNbsp (orEmpty s))))))"

section \<open>Comment Normalizer: \<^verbatim>\<open>attsHash\<close>\<close>

text \<open>
  \<^verbatim>\<open>String(n)\<close> for an integer: its decimal digits, with a minus sign when negative
  (identifiers of the service are integers far below the range where the runtime
  switches to exponent notation).
\<close>

fun digitsOf :: "nat \<Rightarrow> jsstring" where
  "digitsOf n =
     (if n < 10 then [0x30 + of_nat n] else digitsOf (n div 10) @ [0x30 + of_nat (n mod 10)])"

declare digitsOf.simps [simp del]

definition stringOfInt :: "int \<Rightarrow> jsstring" where
  "stringOfInt i = (if i < 0 then 0x2D # digitsOf (nat (- i)) else digitsOf (nat i))"

text \<open>
  An attachment as the service sends it: \<^verbatim>\<open>{ type: t, [t]: { owner_id, id, sticker_id,
  url, link, ... } }\<close>. Every field may be missing (\<open>None\<close>); \<open>payload\<close> is the
  object stored under the key that \<open>type\<close> names.
\<close>

record media =
  owner_id :: "int option"
  media_id :: "int option"
  sticker_id :: "int option"
  url :: "jsstring option"
  link :: "jsstring option"

record attachment =
  atype :: "jsstring option"
  payload :: "media option"

text \<open>\<^verbatim>\<open>a[t] || {}\<close>: an object with no field.\<close>

definition emptyMedia :: media where
  "emptyMedia = \<lparr>owner_id = None, media_id = None, sticker_id = None, url = None, link = None\<rparr>"

text \<open>\<^verbatim>\<open>x != null ? String(x) : ''\<close>\<close>

definition strOrEmpty :: "int option \<Rightarrow> jsstring" where
  "strOrEmpty x = (case x of None \<Rightarrow> [] | Some n \<Rightarrow> stringOfInt n)"

text \<open>\<^verbatim>\<open>obj.url || obj.link || ''\<close>: the first of the two that is a non-empty string.\<close>

definition urlOrLink :: "media \<Rightarrow> jsstring" where
  "urlOrLink obj =
     (case url obj of
        Some u \<Rightarrow> if u \<noteq> [] then u else (case link obj of Some l \<Rightarrow> l | None \<Rightarrow> [])
      | None \<Rightarrow> (case link obj of Some l \<Rightarrow> l | None \<Rightarrow> []))"

text \<open>
  The function mapped over the list. An element may be \<^verbatim>\<open>null\<close> (\<open>None\<close>); then,
  or when its \<open>type\<close> is missing or empty, the tuple is \<^verbatim>\<open>unknown:\<close>.
\<close>

definition attTuple :: "attachment option \<Rightarrow> jsstring" where
  "attTuple a =
     (case (case a of None \<Rightarrow> None | Some r \<Rightarrow> atype r) of
        None \<Rightarrow> lit ''unknown:''
      | Some t \<Rightarrow>
          if t = [] then lit ''unknown:''
          else
            (let obj = (case a of None \<Rightarrow> emptyMedia
                        | Some r \<Rightarrow> (case payload r of None \<Rightarrow> emptyMedia | Some m \<Rightarrow> m));
                 ownr = strOrEmpty (owner_id obj);
                 idn = strOrEmpty (media_id obj);
                 stickerId = (case sticker_id obj of None \<Rightarrow> []
                              | Some n \<Rightarrow> lit ''st:'' @ stringOfInt n);
                 u = urlOrLink obj
             in t @ lit '':'' @ ownr @ lit '':'' @ idn @ lit '':'' @ stickerId @ lit '':'' @ u))"

text \<open>\<^verbatim>\<open>.join(sep)\<close>\<close>

fun join :: "jsstring \<Rightarrow> jsstring list \<Rightarrow> jsstring" where
  "join sep [] = []"
| "join sep [x] = x"
| "join sep (x # y # ys) = x @ sep @ join sep (y # ys)"

text \<open>
  \<^verbatim>\<open>attsHash(atts = [], ignore = false)\<close>. The attachments field is \<open>None\<close> when it is
  missing (the default parameter makes it the empty list) or \<^verbatim>\<open>null\<close> (not an array):
  both give the empty signature. \<^verbatim>\<open>.sort()\<close> without a comparator orders strings by
  their code units, which is the lexicographic order of \<open>unit16 list\<close>. With attachments
  of this shape no step of the mapped function throws, so the \<^verbatim>\<open>catch\<close> branch is
  not reached.
\<close>

definition attsHash :: "attachment option list option \<Rightarrow> bool \<Rightarrow> jsstring" where
  "attsHash atts ignore =
     (let a = (case atts of None \<Rightarrow> [] | Some l \<Rightarrow> l)
      in if ignore \<or> a = [] then [] else join (lit ''|'') (sort (map attTuple a)))"

section \<open>Duplicate Planner: \<^verbatim>\<open>planDeletionsAsc\<close>\<close>

text \<open>A thread entry: the fields of a comment that the planner reads.\<close>

record entry =
  ident :: int
  from_id :: int
  text_body :: jstext
  attachments :: "attachment option list option"

text \<open>The three comparisons \<^verbatim>\<open>sameAuthor && sameText && sameAtts\<close>.\<close>

definition sameEntry :: "unicode_data \<Rightarrow> bool \<Rightarrow> entry \<Rightarrow> entry \<Rightarrow> bool" where
  "sameEntry ucd ignoreAtts prevKept cur \<longleftrightarrow>
     from_id prevKept = from_id cur \<and>
     normalizeText ucd (text_body prevKept) = normalizeText ucd (text_body cur) \<and>
     attsHash (attachments prevKept) ignoreAtts = attsHash (attachments cur) ignoreAtts"

text \<open>
  One turn of the \<^verbatim>\<open>for await\<close> loop on the state \<open>(prevKept, toDelete)\<close>. An entry
  is an object, hence truthy: \<^verbatim>\<open>!prevKept\<close> holds only before the first entry.
\<close>

fun planStep ::
  "unicode_data \<Rightarrow> bool \<Rightarrow> entry option \<times> int list \<Rightarrow> entry \<Rightarrow> entry option \<times> int list" where
  "planStep ucd ignoreAtts (None, toDelete) cur = (Some cur, toDelete)"
| "planStep ucd ignoreAtts (Some prevKept, toDelete) cur =
     (if sameEntry ucd ignoreAtts prevKept cur then (Some prevKept, toDelete @ [ident cur])
      else (Some cur, toDelete))"

text \<open>
  The loop over the entries that \<^verbatim>\<open>iterAsc\<close> yields, in the order it yields them,
  and the plan returned at its end.
\<close>

definition planLoop :: "unicode_data \<Rightarrow> bool \<Rightarrow> entry list \<Rightarrow> entry option \<times> int list" where
  "planLoop ucd ignoreAtts entries = foldl (planStep ucd ignoreAtts) (None, []) entries"

definition planDeletionsAsc :: "unicode_data \<Rightarrow> bool \<Rightarrow> entry list \<Rightarrow> int list" where
  "planDeletionsAsc ucd ignoreAtts entries = snd (planLoop ucd ignoreAtts entries)"

text \<open>The signature of an entry: what the three comparisons compare.\<close>

definition signature :: "unicode_data \<Rightarrow> bool \<Rightarrow> entry \<Rightarrow> int \<times> jsstring \<times> jsstring" where
  "signature ucd ignoreAtts e =
     (from_id e, normalizeText ucd (text_body e), attsHash (attachments e) ignoreAtts)"

section \<open>Resilient Call Wrapper: \<^verbatim>\<open>withRetries\<close>\<close>

text \<open>
  What a failed call throws: \<open>code\<close> is \<^verbatim>\<open>e.code\<close> (\<open>None\<close> when the error has
  none), \<open>message\<close> is \<^verbatim>\<open>e.message || e.error_msg || String(e)\<close>.
\<close>

record api_error =
  code :: "int option"
  message :: jsstring

text \<open>\<^verbatim>\<open>code === 6 || code === 10 || (code >= 500 && code < 600)\<close>\<close>

definition retriable :: "int option \<Rightarrow> bool" where
  "retriable c = (case c of None \<Rightarrow> False | Some n \<Rightarrow> n = 6 \<or> n = 10 \<or> (500 \<le> n \<and> n < 600))"

text \<open>
  The error that \<^verbatim>\<open>withRetries\<close> throws: a plain \<^verbatim>\<open>Error\<close> whose only payload is
  its message, the template
  \<^verbatim>\<open>VK API failed: code=${code}, msg=${message}, attempt=${attempt}\<close>.
\<close>

datatype js_error = Error jsstring

definition failureMessage :: "int option \<Rightarrow> jsstring \<Rightarrow> nat \<Rightarrow> jsstring" where
  "failureMessage c msg attempt =
     lit ''VK API failed: code='' @ (case c of None \<Rightarrow> lit ''undefined'' | Some n \<Rightarrow> stringOfInt n) @
     lit '', msg='' @ msg @ lit '', attempt='' @ stringOfInt (int attempt)"

text \<open>
  The \<^verbatim>\<open>while (true)\<close> loop. The operation \<open>fn\<close> is given by the outcome of each of
  its invocations, numbered from 0; \<open>calls\<close> counts the invocations made so far and is
  returned with the result. \<^verbatim>\<open>backoff\<close> only suspends the caller for a random time
  and leaves no trace in the result.
\<close>

function withRetriesLoop ::
  "(nat \<Rightarrow> api_error + 'a) \<Rightarrow> nat \<Rightarrow> nat \<Rightarrow> nat \<Rightarrow> (js_error + 'a) \<times> nat" where
  "withRetriesLoop fn maxRetries attempt calls =
     (case fn calls of
        Inr v \<Rightarrow> (Inr v, Suc calls)
      | Inl e \<Rightarrow>
          if \<not> retriable (code e) \<or> attempt \<ge> maxRetries
          then (Inl (Error (failureMessage (code e) (message e) attempt)), Suc calls)
          else withRetriesLoop fn maxRetries (Suc attempt) (Suc calls))"
  by pat_completeness auto
termination
  by (relation "measure (\<lambda>(fn, maxRetries, attempt, calls). maxRetries - attempt)") auto

declare withRetriesLoop.simps [simp del]

text \<open>The defaults of \<^verbatim>\<open>DEFAULTS\<close> that the core reads.\<close>

definition DEFAULTS_maxRetries :: nat where
  "DEFAULTS_maxRetries = 6"

definition DEFAULTS_planPreview :: nat where
  "DEFAULTS_planPreview = 20"

text \<open>
  \<^verbatim>\<open>withRetries(fn, cfg)\<close>: \<open>cfg_maxRetries\<close> is \<open>None\<close> when the caller passes no
  bound. The base delay of the configuration only reaches \<^verbatim>\<open>backoff\<close>.
\<close>

definition withRetries :: "(nat \<Rightarrow> api_error + 'a) \<Rightarrow> nat option \<Rightarrow> (js_error + 'a) \<times> nat" where
  "withRetries fn cfg_maxRetries =
     withRetriesLoop fn (case cfg_maxRetries of None \<Rightarrow> DEFAULTS_maxRetries | Some m \<Rightarrow> m) 0 0"

section \<open>Bounded Executor: \<^verbatim>\<open>pMap\<close>\<close>

text \<open>
  The state of one call of \<^verbatim>\<open>pMap\<close>. \<open>cursor\<close> is the variable \<^verbatim>\<open>i\<close>;
  \<open>active\<close>, \<open>resolved\<close> and \<open>results\<close> are the variables of these names (an empty
  slot of the array is \<open>None\<close>); \<open>promise\<close> is the promise that \<^verbatim>\<open>pMap\<close> returns:
  \<open>None\<close> while pending, \<open>Inr\<close> once \<^verbatim>\<open>resolve\<close> was called, \<open>Inl\<close> once
  \<^verbatim>\<open>reject\<close> was called (only the first of these calls has an effect). \<open>pending\<close>
  holds the indices whose mapper promise has not settled yet; \<open>launched\<close> and
  \<open>settled\<close> record the order in which the mapper was invoked and in which its promises
  settled. \<open>shared\<close> is the state that the mapper's body shares with its caller.
\<close>

record ('r, 'e, 's) pmap_state =
  cursor :: nat
  active :: nat
  resolved :: nat
  results :: "'r option list"
  promise :: "('e + 'r option list) option"
  pending :: "nat list"
  launched :: "nat list"
  settled :: "(nat \<times> ('e + 'r)) list"
  shared :: 's

text \<open>\<^verbatim>\<open>resolve(v)\<close> and \<^verbatim>\<open>reject(e)\<close>: a settled promise does not change any more.\<close>

definition settle ::
  "('e + 'r option list) \<Rightarrow> ('r, 'e, 's) pmap_state \<Rightarrow> ('r, 'e, 's) pmap_state" where
  "settle v st = (case promise st of None \<Rightarrow> st\<lparr>promise := Some v\<rparr> | Some _ \<Rightarrow> st)"

text \<open>
  The \<^verbatim>\<open>while (active < concurrency && i < items.length)\<close> loop of \<^verbatim>\<open>next\<close>: each
  turn invokes the mapper on the item under the cursor.
\<close>

function launch :: "nat \<Rightarrow> nat \<Rightarrow> ('r, 'e, 's) pmap_state \<Rightarrow> ('r, 'e, 's) pmap_state" where
  "launch n c st =
     (if active st < c \<and> cursor st < n
      then launch n c
             (st\<lparr>cursor := Suc (cursor st), active := Suc (active st),
                 pending := pending st @ [cursor st], launched := launched st @ [cursor st]\<rparr>)
      else st)"
  by pat_completeness auto
termination
  by (relation "measure (\<lambda>(n, c, st). n - cursor st)") auto

declare launch.simps [simp del]

text \<open>The function \<^verbatim>\<open>next\<close>.\<close>

definition pnext :: "nat \<Rightarrow> nat \<Rightarrow> ('r, 'e, 's) pmap_state \<Rightarrow> ('r, 'e, 's) pmap_state" where
  "pnext n c st = (if resolved st = n then settle (Inr (results st)) st else launch n c st)"

text \<open>
  The mapper promise of index \<open>idx\<close> settles. The mapper is an \<^verbatim>\<open>async\<close> function:
  given the item, its index and the shared state it yields the value it fulfils with
  (\<open>Inr\<close>) or the error it rejects with (\<open>Inl\<close>), and the shared state as its body
  leaves it. Then the chain \<^verbatim>\<open>.then(...).catch(reject).finally(...)\<close> runs: the value is
  stored, or the error is handed to \<^verbatim>\<open>reject\<close>; the counters move and \<^verbatim>\<open>next\<close> is
  called.
\<close>

definition complete ::
  "'a list \<Rightarrow> ('a \<Rightarrow> nat \<Rightarrow> 's \<Rightarrow> ('e + 'r) \<times> 's) \<Rightarrow> nat \<Rightarrow> nat \<Rightarrow>
   ('r, 'e, 's) pmap_state \<Rightarrow> ('r, 'e, 's) pmap_state" where
  "complete items mapper c idx st =
     (let (r, sh) = mapper (items ! idx) idx (shared st);
          st1 = st\<lparr>shared := sh, settled := settled st @ [(idx, r)]\<rparr>;
          st2 = (case r of
                   Inr v \<Rightarrow> st1\<lparr>results := (results st1)[idx := Some v]\<rparr>
                 | Inl e \<Rightarrow> settle (Inl e) st1);
          st3 = st2\<lparr>active := active st2 - 1, resolved := Suc (resolved st2),
                    pending := remove1 idx (pending st2)\<rparr>
      in pnext (length items) c st3)"

text \<open>
  The order in which the pending mapper promises settle is not fixed by the program. A
  schedule fixes it: each of its numbers picks one of the pending promises (modulo their
  number). When nothing is pending the run is over.
\<close>

fun runSchedule ::
  "'a list \<Rightarrow> ('a \<Rightarrow> nat \<Rightarrow> 's \<Rightarrow> ('e + 'r) \<times> 's) \<Rightarrow> nat \<Rightarrow> nat list \<Rightarrow>
   ('r, 'e, 's) pmap_state \<Rightarrow> ('r, 'e, 's) pmap_state" where
  "runSchedule items mapper c [] st = st"
| "runSchedule items mapper c (k # ks) st =
     (if pending st = [] then st
      else runSchedule items mapper c ks
             (complete items mapper c (pending st ! (k mod length (pending st))) st))"

definition initial :: "nat \<Rightarrow> 's \<Rightarrow> ('r, 'e, 's) pmap_state" where
  "initial n sh =
     \<lparr>cursor = 0, active = 0, resolved = 0, results = replicate n None, promise = None,
      pending = [], launched = [], settled = [], shared = sh\<rparr>"

text \<open>
  \<^verbatim>\<open>pMap(items, mapper, { concurrency })\<close> after the promises picked by the schedule have
  settled. \<^verbatim>\<open>Math.max(1, Number(concurrency) || 1)\<close> is \<open>max 1 concurrency\<close> on
  natural numbers.
\<close>

definition pMap ::
  "'a list \<Rightarrow> ('a \<Rightarrow> nat \<Rightarrow> 's \<Rightarrow> ('e + 'r) \<times> 's) \<Rightarrow> nat \<Rightarrow> nat list \<Rightarrow> 's \<Rightarrow>
   ('r, 'e, 's) pmap_state" where
  "pMap items mapper concurrency sched sh =
     (let c = max 1 concurrency
      in runSchedule items mapper c sched (pnext (length items) c (initial (length items) sh)))"

section \<open>Deletion Orchestrator: \<^verbatim>\<open>deleteBatch\<close> and \<^verbatim>\<open>main\<close>\<close>

text \<open>The lines written to the console (elapsed times are left out).\<close>

datatype log_line =
    ScanTail nat nat
  | ScanFull
  | DryRun nat
  | First nat "int list"
  | Last nat "int list"
  | DoneDryRun
  | NothingToDelete
  | DeleteFailed int "int option" jsstring
  | Progress nat nat nat
  | Deleted nat nat
  | Uncaught js_error

text \<open>
  The variables that the mapper of \<^verbatim>\<open>deleteBatch\<close> shares with it, the console, and
  the number of \<^verbatim>\<open>deleteComment\<close> requests sent to the service.
\<close>

record batch_state =
  ok :: nat
  processed :: nat
  console :: "log_line list"
  api_calls :: nat

text \<open>
  The mapper of \<^verbatim>\<open>deleteBatch\<close>. The service is given by \<open>remote\<close>: the outcome of
  the \<open>k\<close>-th \<^verbatim>\<open>deleteComment\<close> request made for plan position \<open>idx\<close> and comment
  \<open>comment_id\<close>. The error caught is the one thrown by \<^verbatim>\<open>withRetries\<close>, which has no
  \<^verbatim>\<open>code\<close> field. The mapper itself always fulfils.
\<close>

definition deleteWorker ::
  "nat \<Rightarrow> (nat \<Rightarrow> int \<Rightarrow> nat \<Rightarrow> api_error + unit) \<Rightarrow> nat \<Rightarrow> int \<Rightarrow> nat \<Rightarrow> batch_state \<Rightarrow>
   (js_error + unit) \<times> batch_state" where
  "deleteWorker maxRetries remote totalN comment_id idx bs =
     (let (r, k) = withRetries (remote idx comment_id) (Some maxRetries);
          bs1 = bs\<lparr>api_calls := api_calls bs + k\<rparr>;
          bs2 = (case r of
                   Inr _ \<Rightarrow> bs1\<lparr>ok := Suc (ok bs1)\<rparr>
                 | Inl (Error msg) \<Rightarrow>
                     bs1\<lparr>console := console bs1 @ [DeleteFailed comment_id None msg]\<rparr>);
          bs3 = bs2\<lparr>processed := Suc (processed bs2)\<rparr>;
          bs4 = (if processed bs3 mod 20 = 0 \<or> processed bs3 = totalN
                 then bs3\<lparr>console := console bs3 @ [Progress (processed bs3) totalN (ok bs3)]\<rparr>
                 else bs3)
      in (Inr (), bs4))"

text \<open>
  \<^verbatim>\<open>deleteBatch\<close>: \<open>None\<close> while the promise of \<^verbatim>\<open>pMap\<close> is pending; otherwise the
  value returned (\<open>ok\<close>) or the error thrown, with the shared state at that moment.
\<close>

definition deleteBatch ::
  "int list \<Rightarrow> nat \<Rightarrow> nat \<Rightarrow> (nat \<Rightarrow> int \<Rightarrow> nat \<Rightarrow> api_error + unit) \<Rightarrow> nat list \<Rightarrow>
   ((js_error + nat) \<times> batch_state) option" where
  "deleteBatch ids concurrency maxRetries remote sched =
     (let st = pMap ids (deleteWorker maxRetries remote (length ids)) concurrency sched
                 \<lparr>ok = 0, processed = 0, console = [], api_calls = 0\<rparr>
      in case promise st of
           None \<Rightarrow> None
         | Some (Inl e) \<Rightarrow> Some (Inl e, shared st)
         | Some (Inr _) \<Rightarrow> Some (Inr (ok (shared st)), shared st))"

text \<open>The options that \<^verbatim>\<open>parseArgs\<close> hands to \<^verbatim>\<open>main\<close>.\<close>

record run_options =
  opt_full :: bool
  opt_tail :: nat
  opt_ignoreAtts :: bool
  opt_dryRun :: bool
  opt_concurrency :: nat
  opt_maxRetries :: nat
  opt_planPreview :: nat

text \<open>
  What a run leaves behind: the console, the exit code when the run ends the process
  itself, and the number of \<^verbatim>\<open>deleteComment\<close> requests sent.
\<close>

record run_result =
  out :: "log_line list"
  exit_code :: "int option"
  delete_calls :: nat

text \<open>
  \<^verbatim>\<open>main\<close> from the computation of the start offset on. \<open>totalN\<close> is what
  \<^verbatim>\<open>getTotal\<close> returns and \<open>thread\<close> gives the entries that \<^verbatim>\<open>iterAsc\<close> yields
  from a start offset. The result is \<open>None\<close> while \<^verbatim>\<open>deleteBatch\<close> is awaited.
\<close>

definition main ::
  "unicode_data \<Rightarrow> run_options \<Rightarrow> nat \<Rightarrow> (nat \<Rightarrow> entry list) \<Rightarrow>
   (nat \<Rightarrow> int \<Rightarrow> nat \<Rightarrow> api_error + unit) \<Rightarrow> nat list \<Rightarrow> run_result option" where
  "main ucd opts totalN thread remote sched =
     (let startOffset = (if opt_full opts then 0 else totalN - (opt_tail opts + 1));
          log0 = (if opt_full opts then [ScanFull] else [ScanTail totalN startOffset]);
          plan = planDeletionsAsc ucd (opt_ignoreAtts opts) (thread startOffset)
      in if opt_dryRun opts then
           (let head = take (min (opt_planPreview opts) (length plan)) plan;
                tail = drop (length plan - opt_planPreview opts) plan
            in Some \<lparr>out = log0 @ [DryRun (length plan)] @
                           (if plan \<noteq> []
                            then [First (length head) head] @
                                 (if tail \<noteq> [] then [Last (length tail) tail] else [])
                            else []) @
                           [DoneDryRun],
                     exit_code = Some 0, delete_calls = 0\<rparr>)
         else if plan = [] then
           Some \<lparr>out = log0 @ [NothingToDelete], exit_code = None, delete_calls = 0\<rparr>
         else
           (case deleteBatch plan (opt_concurrency opts) (opt_maxRetries opts) remote sched of
              None \<Rightarrow> None
            | Some (Inr deleted, bs) \<Rightarrow>
                Some \<lparr>out = log0 @ console bs @ [Deleted deleted (length plan)],
                      exit_code = None, delete_calls = api_calls bs\<rparr>
            | Some (Inl e, bs) \<Rightarrow>
                Some \<lparr>out = log0 @ console bs @ [Uncaught e],
                      exit_code = Some 1, delete_calls = api_calls bs\<rparr>))"

section \<open>Auxiliary notions for the normalizer\<close>

text \<open>
  Every high surrogate that has a successor is directly followed by a low surrogate.
  Every well-formed UTF-16 string is of this kind.
\<close>

definition highsPaired :: "jsstring \<Rightarrow> bool" where
  "highsPaired s \<longleftrightarrow> successively (\<lambda>a b. isHigh a \<longrightarrow> isLow b) s"

text \<open>
  What the stages of \<^verbatim>\<open>normalizeText\<close> establish: no tab and no two blanks in a
  row; no line feed next to white space; no white space at either end.
\<close>

definition blanksCollapsed :: "jsstring \<Rightarrow> bool" where
  "blanksCollapsed s \<longleftrightarrow> 0x09 \<notin> set s \<and> successively (\<lambda>a b. \<not> (isBlank a \<and> isBlank b)) s"

definition newlinesCollapsed :: "jsstring \<Rightarrow> bool" where
  "newlinesCollapsed s \<longleftrightarrow>
     successively (\<lambda>a b. \<not> (a = 0x0A \<and> isSpace b) \<and> \<not> (isSpace a \<and> b = 0x0A)) s"

definition trimmed :: "jsstring \<Rightarrow> bool" where
  "trimmed s \<longleftrightarrow> s = [] \<or> (\<not> isSpace (hd s) \<and> \<not> isSpace (last s))"

text \<open>
  A code point that \<^verbatim>\<open>toLowerCase\<close> leaves alone in every context: it is its own
  lower-case mapping and is not the capital sigma.
\<close>

definition lowerFixed :: "unicode_data \<Rightarrow> int \<Rightarrow> bool" where
  "lowerFixed ucd cp \<longleftrightarrow> uc_lower ucd cp = [cp] \<and> cp \<noteq> 0x3A3"

text \<open>
  A pair of neighbours in a string that \<^verbatim>\<open>toLowerCase\<close> leaves alone: a high
  surrogate is followed by a low one, and the two are a code point left alone.
\<close>

definition stablePair :: "unicode_data \<Rightarrow> unit16 \<Rightarrow> unit16 \<Rightarrow> bool" where
  "stablePair ucd a b \<longleftrightarrow> (isHigh a \<longrightarrow> isLow b \<and> lowerFixed ucd (pairValue a b))"

definition lowerStable :: "unicode_data \<Rightarrow> jsstring \<Rightarrow> bool" where
  "lowerStable ucd s \<longleftrightarrow>
     (\<forall>c\<in>set s. lowerFixed ucd (uint c)) \<and> successively (stablePair ucd) s"

text \<open>
  The properties of the lower-case mappings of the Unicode Character Database that the
  idempotence of the normalizer rests on: a surrogate code point is its own mapping; the
  mapping of any other code point holds only code points that are no surrogates, are
  their own mappings and are not the capital sigma; the two small sigmas, the space and
  the line feed are their own mappings; the non-breaking space is in no mapping but its
  own.
\<close>

definition isCodePoint :: "int \<Rightarrow> bool" where
  "isCodePoint cp \<longleftrightarrow> 0 \<le> cp \<and> cp < 0x110000"

definition isSurrogate :: "int \<Rightarrow> bool" where
  "isSurrogate cp \<longleftrightarrow> 0xD800 \<le> cp \<and> cp \<le> 0xDFFF"

definition caseStable :: "unicode_data \<Rightarrow> bool" where
  "caseStable ucd \<longleftrightarrow>
     (\<forall>cp. isSurrogate cp \<longrightarrow> uc_lower ucd cp = [cp]) \<and>
     (\<forall>cp c. isCodePoint cp \<and> \<not> isSurrogate cp \<and> c \<in> set (uc_lower ucd cp) \<longrightarrow>
        isCodePoint c \<and> \<not> isSurrogate c \<and> lowerFixed ucd c) \<and>
     lowerFixed ucd 0x3C2 \<and> lowerFixed ucd 0x3C3 \<and> lowerFixed ucd 0x20 \<and>
     lowerFixed ucd 0x0A \<and>
     (\<forall>cp. isCodePoint cp \<and> cp \<noteq> 0xA0 \<longrightarrow> 0xA0 \<notin> set (uc_lower ucd cp))"

text \<open>
  An excerpt of the Unicode Character Database for the examples below. On U+0000..U+00FF
  (Basic Latin and Latin-1 Supplement), U+0130, U+0307, U+0391..U+03C9 (Greek),
  U+0400..U+045F (Cyrillic), U+200B..U+200D, U+FEFF and U+10400..U+1044F (Deseret) it
  holds the lower-case mappings and the properties Cased and Case_Ignorable of the
  database; elsewhere it maps every code point to itself, which the database does not.
  The examples use code points of the listed ranges and surrogates only.
\<close>

definition excerptLower :: "int \<Rightarrow> int list" where
  "excerptLower cp =
     (if 0x41 \<le> cp \<and> cp \<le> 0x5A then [cp + 0x20]
      else if 0xC0 \<le> cp \<and> cp \<le> 0xDE \<and> cp \<noteq> 0xD7 then [cp + 0x20]
      else if cp = 0x130 then [0x69, 0x307]
      else if 0x391 \<le> cp \<and> cp \<le> 0x3AB \<and> cp \<noteq> 0x3A2 then [cp + 0x20]
      else if 0x410 \<le> cp \<and> cp \<le> 0x42F then [cp + 0x20]
      else if 0x400 \<le> cp \<and> cp \<le> 0x40F then [cp + 0x50]
      else if 0x10400 \<le> cp \<and> cp \<le> 0x10427 then [cp + 0x28]
      else [cp])"

definition excerptCased :: "int \<Rightarrow> bool" where
  "excerptCased cp \<longleftrightarrow>
     (0x41 \<le> cp \<and> cp \<le> 0x5A) \<or> (0x61 \<le> cp \<and> cp \<le> 0x7A) \<or>
     cp = 0xAA \<or> cp = 0xB5 \<or> cp = 0xBA \<or>
     (0xC0 \<le> cp \<and> cp \<le> 0xFF \<and> cp \<noteq> 0xD7 \<and> cp \<noteq> 0xF7) \<or> cp = 0x130 \<or>
     (0x391 \<le> cp \<and> cp \<le> 0x3C9 \<and> cp \<noteq> 0x3A2) \<or> (0x400 \<le> cp \<and> cp \<le> 0x45F) \<or>
     (0x10400 \<le> cp \<and> cp \<le> 0x1044F)"

definition excerptIgnorable :: "int \<Rightarrow> bool" where
  "excerptIgnorable cp \<longleftrightarrow>
     cp = 0x27 \<or> cp = 0x2E \<or> cp = 0x3A \<or> cp = 0x5E \<or> cp = 0x60 \<or> cp = 0xA8 \<or>
     cp = 0xAD \<or> cp = 0xAF \<or> cp = 0xB4 \<or> cp = 0xB7 \<or> cp = 0xB8 \<or> cp = 0x307 \<or>
     cp = 0x200B \<or> cp = 0x200C \<or> cp = 0x200D \<or> cp = 0xFEFF"

definition ucdExcerpt :: unicode_data where
  "ucdExcerpt =
     \<lparr>uc_lower = excerptLower, uc_cased = excerptCased, uc_ignorable = excerptIgnorable\<rparr>"

section \<open>Auxiliary notions for the executor and the orchestrator\<close>

text \<open>The errors of the mapper promises that were rejected, in the order they settled.\<close>

definition failures :: "(nat \<times> ('e + 'r)) list \<Rightarrow> 'e list" where
  "failures log = concat (map (\<lambda>(i, r). case r of Inl e \<Rightarrow> [e] | Inr v \<Rightarrow> []) log)"

text \<open>
  The invariant of \<^verbatim>\<open>pMap\<close> between two settlements: the counters agree with the
  pending and settled promises, at most \<open>c\<close> promises are pending, the items were
  launched in index order, every launched index is pending or settled exactly once, and
  while items remain the executor is saturated.
\<close>

definition pinv :: "nat \<Rightarrow> nat \<Rightarrow> ('r, 'e, 's) pmap_state \<Rightarrow> bool" where
  "pinv n c st \<longleftrightarrow>
     cursor st \<le> n \<and> active st = length (pending st) \<and> active st \<le> c \<and>
     launched st = [0..<cursor st] \<and>
     mset (map fst (settled st)) + mset (pending st) = mset [0..<cursor st] \<and>
     resolved st = length (settled st) \<and> length (results st) = n \<and>
     (cursor st < n \<longrightarrow> active st = c)"

text \<open>
  The promise of \<^verbatim>\<open>pMap\<close> and the array of results, as determined by the
  settlements so far.
\<close>

definition pprom :: "nat \<Rightarrow> ('r, 'e, 's) pmap_state \<Rightarrow> bool" where
  "pprom n st \<longleftrightarrow>
     promise st =
       (case failures (settled st) of
          e # _ \<Rightarrow> Some (Inl e)
        | [] \<Rightarrow> if length (settled st) = n then Some (Inr (results st)) else None) \<and>
     (\<forall>i<n. results st ! i =
        (case map_of (settled st) i of Some (Inr v) \<Rightarrow> Some v | Some (Inl e) \<Rightarrow> None | None \<Rightarrow> None))"


text \<open>The console lines that report a failed deletion.\<close>

fun isDeleteFailed :: "log_line \<Rightarrow> bool" where
  "isDeleteFailed (DeleteFailed c e m) = True"
| "isDeleteFailed l = False"

text \<open>
  The counters and the console of \<^verbatim>\<open>deleteBatch\<close> as determined by the settlements
  so far, when the deletion at plan position \<open>j\<close> is the only one that fails.
\<close>

definition binv ::
  "nat \<Rightarrow> log_line \<Rightarrow> (unit, js_error, batch_state) pmap_state \<Rightarrow> bool" where
  "binv j line st \<longleftrightarrow>
     ok (shared st) = length (filter (\<lambda>i. i \<noteq> j) (map fst (settled st))) \<and>
     processed (shared st) = length (settled st) \<and>
     filter isDeleteFailed (console (shared st)) =
       (if j \<in> fst ` set (settled st) then [line] else []) \<and>
     failures (settled st) = []"

section \<open>Properties of the normalizer\<close>

text \<open>
  C10. \<^verbatim>\<open>normalizeText\<close> maps \<^verbatim>\<open>null\<close>, \<^verbatim>\<open>undefined\<close> and the empty string to the
  empty string; no step of the chain can throw on them. So the signature that the planner
  compares holds the empty normalized text for an entry whose text field is missing or
  null.
\<close>

theorem normalizeText_absent:
  "normalizeText ucd Null = [] \<and> normalizeText ucd Undefined = [] \<and>
   normalizeText ucd (Str []) = [] \<and>
   signature ucd ignoreAtts (e\<lparr>text_body := Undefined\<rparr>) =
     (from_id e, [], attsHash (attachments e) ignoreAtts) \<and>
   signature ucd ignoreAtts (e\<lparr>text_body := Null\<rparr>) =
     (from_id e, [], attsHash (attachments e) ignoreAtts)"
  by (simp add: normalizeText_def toLowerCase_def trim_def stripZeroWidth_def replaceNbsp_def
      signature_def)

text \<open>
  The code units that the stages insert, a space and a line feed, in the classes of the
  regular expressions.
\<close>

lemma class_facts [simp]:
  "isSpace 0x0A" "isSpace 0x20" "isBlank 0x20" "\<not> isBlank 0x0A"
  "\<not> isZeroWidth 0x20" "\<not> isZeroWidth 0x0A"
  by (simp_all add: isSpace_def isBlank_def isZeroWidth_def)

text \<open>
  The later stages only remove code units, or put a space or a line feed in the place of
  a run.
\<close>

lemma set_collapseBlanks: "set (collapseBlanks s) \<subseteq> insert 0x20 (set s)"
proof (induction s rule: collapseBlanks.induct)
  case 1 then show ?case by simp
next
  case (2 c cs)
  have "set (dropWhile isBlank cs) \<subseteq> set cs" by (rule set_dropWhileD[THEN subsetI])
  with 2 show ?case by (cases "isBlank c") auto
qed

lemma set_collapseNewlines: "set (collapseNewlines s) \<subseteq> insert 0x0A (set s)"
proof (induction s rule: collapseNewlines.induct)
  case 1 then show ?case by simp
next
  case (2 c cs)
  have "set (dropWhile isSpace (c # cs)) \<subseteq> set (c # cs)" by (rule set_dropWhileD[THEN subsetI])
  with 2 show ?case by (cases "0x0A \<in> set (takeWhile isSpace (c # cs))") auto
qed

lemma set_trim: "set (trim s) \<subseteq> set s"
proof -
  have "set (dropWhile isSpace (rev (dropWhile isSpace s))) \<subseteq> set (rev (dropWhile isSpace s))"
    by (rule set_dropWhileD[THEN subsetI])
  moreover have "set (dropWhile isSpace s) \<subseteq> set s" by (rule set_dropWhileD[THEN subsetI])
  ultimately show ?thesis by (auto simp: trim_def)
qed

text \<open>
  Each stage is the identity on a string that already has the form the stage establishes.
\<close>

lemma replaceNbsp_id: "0xA0 \<notin> set s \<Longrightarrow> replaceNbsp s = s"
  unfolding replaceNbsp_def by (rule map_idI) auto

lemma stripZeroWidth_id: "\<forall>c\<in>set s. \<not> isZeroWidth c \<Longrightarrow> stripZeroWidth s = s"
  unfolding stripZeroWidth_def by (rule filter_True) auto

lemma collapseBlanks_id: "blanksCollapsed s \<Longrightarrow> collapseBlanks s = s"
proof (induction s rule: collapseBlanks.induct)
  case 1 then show ?case by simp
next
  case (2 c cs)
  from 2(3) have tl: "blanksCollapsed cs"
    by (auto simp: blanksCollapsed_def successively_Cons)
  show ?case
  proof (cases "isBlank c")
    case False
    with 2 tl show ?thesis by simp
  next
    case True
    with 2(3) have c: "c = 0x20" by (auto simp: blanksCollapsed_def isBlank_def)
    from True 2(3) have "cs = [] \<or> \<not> isBlank (hd cs)"
      by (auto simp: blanksCollapsed_def successively_Cons)
    then have "dropWhile isBlank cs = cs" by (cases cs) auto
    with 2(1)[OF True] tl True c show ?thesis by simp
  qed
qed

lemma newline_run_head:
  assumes "newlinesCollapsed s" "0x0A \<in> set (takeWhile isSpace s)"
  shows "hd s = 0x0A"
  using assms
proof (induction s)
  case Nil then show ?case by simp
next
  case (Cons c cs)
  show ?case
  proof (cases "c = 0x0A")
    case True then show ?thesis by simp
  next
    case False
    with Cons.prems(2) have sp: "isSpace c" and in_tl: "0x0A \<in> set (takeWhile isSpace cs)"
      by (auto split: if_splits)
    from Cons.prems(1) have tl: "newlinesCollapsed cs"
      by (auto simp: newlinesCollapsed_def successively_Cons)
    from in_tl have ne: "cs \<noteq> []" by auto
    from Cons.IH[OF tl in_tl] have "hd cs = 0x0A" .
    with Cons.prems(1) ne sp show ?thesis
      by (auto simp: newlinesCollapsed_def successively_Cons)
  qed
qed

lemma collapseNewlines_id: "newlinesCollapsed s \<Longrightarrow> collapseNewlines s = s"
proof (induction s rule: collapseNewlines.induct)
  case 1 then show ?case by simp
next
  case (2 c cs)
  from 2(3) have tl: "newlinesCollapsed cs"
    by (auto simp: newlinesCollapsed_def successively_Cons)
  show ?case
  proof (cases "0x0A \<in> set (takeWhile isSpace (c # cs))")
    case False
    with 2 tl show ?thesis by simp
  next
    case True
    from newline_run_head[OF 2(3) True] have c: "c = 0x0A" by simp
    with 2(3) have "cs = [] \<or> \<not> isSpace (hd cs)"
      by (auto simp: newlinesCollapsed_def successively_Cons)
    then have "dropWhile isSpace cs = cs" by (cases cs) auto
    then have d: "dropWhile isSpace (c # cs) = cs" using c by simp
    from 2(1)[OF True] tl d have "collapseNewlines cs = cs" by simp
    with True d c show ?thesis by simp
  qed
qed

lemma trim_id: "trimmed s \<Longrightarrow> trim s = s"
proof (cases "s = []")
  case True then show ?thesis by (simp add: trim_def)
next
  case False
  assume "trimmed s"
  with False have h: "\<not> isSpace (hd s)" and l: "\<not> isSpace (last s)" by (auto simp: trimmed_def)
  from h False have a: "dropWhile isSpace s = s" by (cases s) auto
  from l False have "\<not> isSpace (hd (rev s))" by (simp add: hd_rev)
  with False have "dropWhile isSpace (rev s) = rev s" by (cases "rev s") auto
  with a show ?thesis by (simp add: trim_def)
qed

text \<open>
  Each stage establishes its form, and no later stage destroys the form an earlier one
  established.
\<close>

lemma collapseBlanks_elems:
  "x \<in> set (collapseBlanks s) \<Longrightarrow> x = 0x20 \<or> (x \<in> set s \<and> \<not> isBlank x)"
proof (induction s rule: collapseBlanks.induct)
  case 1 then show ?case by simp
next
  case (2 c cs)
  show ?case
  proof (cases "isBlank c")
    case True
    with 2 have "x = 0x20 \<or> x \<in> set (collapseBlanks (dropWhile isBlank cs))" by simp
    with 2(1)[OF True] show ?thesis by (auto dest: set_dropWhileD)
  next
    case False
    with 2 show ?thesis by auto
  qed
qed

lemma collapseBlanks_succ:
  "successively (\<lambda>a b. \<not> (isBlank a \<and> isBlank b)) (collapseBlanks s)"
proof (induction s rule: collapseBlanks.induct)
  case 1 then show ?case by simp
next
  case (2 c cs)
  show ?case
  proof (cases "isBlank c")
    case False
    with 2 show ?thesis by (simp add: successively_Cons)
  next
    case True
    let ?r = "dropWhile isBlank cs"
    have "collapseBlanks ?r = [] \<or> \<not> isBlank (hd (collapseBlanks ?r))"
    proof (cases "?r = []")
      case True then show ?thesis by (simp del: dropWhile_eq_Nil_conv)
    next
      case False
      then obtain d ds where r: "?r = d # ds" by (cases ?r) auto
      from hd_dropWhile[OF False] r have "\<not> isBlank d" by simp
      with r show ?thesis by simp
    qed
    moreover have "collapseBlanks (c # cs) = 0x20 # collapseBlanks ?r" using True by simp
    ultimately show ?thesis using 2(1)[OF True] by (simp add: successively_Cons)
  qed
qed

lemma collapseBlanks_collapsed: "blanksCollapsed (collapseBlanks s)"
proof -
  have "0x09 \<notin> set (collapseBlanks s)"
    using collapseBlanks_elems[where x = "0x09" and s = s] by (auto simp: isBlank_def)
  with collapseBlanks_succ show ?thesis by (simp add: blanksCollapsed_def)
qed

lemma collapseNewlines_hd_eq:
  "s \<noteq> [] \<Longrightarrow> collapseNewlines s \<noteq> [] \<and>
     hd (collapseNewlines s) = (if 0x0A \<in> set (takeWhile isSpace s) then 0x0A else hd s)"
  by (cases s) auto

lemma collapseNewlines_collapsed: "newlinesCollapsed (collapseNewlines s)"
  unfolding newlinesCollapsed_def
proof (induction s rule: collapseNewlines.induct)
  case 1 then show ?case by simp
next
  case (2 c cs)
  let ?P = "\<lambda>a b. \<not> (a = 0x0A \<and> isSpace b) \<and> \<not> (isSpace a \<and> b = 0x0A)"
  show ?case
  proof (cases "0x0A \<in> set (takeWhile isSpace (c # cs))")
    case True
    let ?r = "dropWhile isSpace (c # cs)"
    have eq: "collapseNewlines (c # cs) = 0x0A # collapseNewlines ?r" using True by simp
    have "collapseNewlines ?r = [] \<or> \<not> isSpace (hd (collapseNewlines ?r))"
    proof (cases "?r = []")
      case True then show ?thesis by (simp del: dropWhile_eq_Nil_conv)
    next
      case False
      then obtain d ds where r: "?r = d # ds" by (cases ?r) auto
      from hd_dropWhile[OF False] r have "\<not> isSpace d" by simp
      with r show ?thesis by (simp del: dropWhile.simps)
    qed
    then have "collapseNewlines ?r = [] \<or> ?P 0x0A (hd (collapseNewlines ?r))" by auto
    with 2(1)[OF True] show ?thesis unfolding eq by (simp add: successively_Cons del: dropWhile.simps)
  next
    case False
    have eq: "collapseNewlines (c # cs) = c # collapseNewlines cs" using False by simp
    have "cs = [] \<or> (collapseNewlines cs \<noteq> [] \<and> ?P c (hd (collapseNewlines cs)))"
    proof (cases "cs = []")
      case True then show ?thesis by simp
    next
      case ne: False
      note h = collapseNewlines_hd_eq[OF ne]
      show ?thesis
      proof (cases "isSpace c")
        case True
        with False have c: "c \<noteq> 0x0A" and nt: "0x0A \<notin> set (takeWhile isSpace cs)" by auto
        from nt ne have "hd cs \<noteq> 0x0A" by (cases cs) auto
        with h nt c show ?thesis by simp
      next
        case False
        then have "c \<noteq> 0x0A" by auto
        with False h show ?thesis by simp
      qed
    qed
    with 2(2)[OF False] show ?thesis unfolding eq by (auto simp: successively_Cons)
  qed
qed

lemma successively_dropWhile: "successively P s \<Longrightarrow> successively P (dropWhile Q s)"
  by (metis successively_append_iff takeWhile_dropWhile_id)

lemma successively_trim:
  assumes "successively P s"
  shows "successively P (trim s)"
proof -
  have "successively (\<lambda>x y. P y x) (rev (dropWhile isSpace s))"
    using successively_dropWhile[OF assms] by simp
  then have "successively (\<lambda>x y. P y x) (dropWhile isSpace (rev (dropWhile isSpace s)))"
    by (rule successively_dropWhile)
  then show ?thesis by (simp add: trim_def)
qed

lemma trim_trimmed: "trimmed (trim s)"
proof (cases "trim s = []")
  case True then show ?thesis by (simp add: trimmed_def)
next
  case False
  let ?a = "dropWhile isSpace s" and ?b = "dropWhile isSpace (rev (dropWhile isSpace s))"
  from False have b: "?b \<noteq> []" by (simp add: trim_def)
  then have a: "?a \<noteq> []" by (auto simp del: dropWhile_eq_Nil_conv)
  from hd_dropWhile[OF b] have "\<not> isSpace (last (trim s))"
    using b by (simp add: trim_def last_rev)
  moreover have "\<not> isSpace (hd (trim s))"
  proof -
    obtain pre where pre: "rev ?a = pre @ ?b" by (metis takeWhile_dropWhile_id)
    then have "?a = rev ?b @ rev pre" by (metis rev_append rev_rev_ident)
    then have "hd ?a = hd (rev ?b)" using b by (metis hd_append2 rev_is_Nil_conv)
    with hd_dropWhile[OF a] show ?thesis by (simp add: trim_def)
  qed
  ultimately show ?thesis by (simp add: trimmed_def)
qed

lemma successively_filter_drop:
  assumes "\<And>a b c. P a b \<Longrightarrow> \<not> keep b \<Longrightarrow> P a c"
  shows "successively P s \<Longrightarrow> successively P (filter keep s)"
proof (induction s)
  case Nil then show ?case by simp
next
  case (Cons a s)
  from Cons.prems have tl: "successively P s" and nb: "s = [] \<or> P a (hd s)"
    by (auto simp: successively_Cons)
  have "filter keep s = [] \<or> P a (hd (filter keep s))"
  proof (cases s)
    case Nil then show ?thesis by simp
  next
    case (Cons b bs)
    with nb have ab: "P a b" by simp
    show ?thesis
    proof (cases "keep b")
      case True with ab Cons show ?thesis by simp
    next
      case False with assms[OF ab] show ?thesis by blast
    qed
  qed
  with Cons.IH[OF tl] show ?case by (simp add: successively_Cons)
qed

lemma collapseBlanks_succ_gen:
  assumes "\<And>a b. P a b \<Longrightarrow> isBlank b \<Longrightarrow> P a 0x20" "\<And>b. P 0x20 b"
  shows "successively P s \<Longrightarrow> successively P (collapseBlanks s)"
proof (induction s rule: collapseBlanks.induct)
  case 1 then show ?case by simp
next
  case (2 c cs)
  from 2(3) have tl: "successively P cs" and nb: "cs = [] \<or> P c (hd cs)"
    by (auto simp: successively_Cons)
  show ?case
  proof (cases "isBlank c")
    case True
    have "successively P (dropWhile isBlank cs)" using tl by (rule successively_dropWhile)
    from 2(1)[OF True this] True assms(2) show ?thesis by (simp add: successively_Cons)
  next
    case False
    have eq: "collapseBlanks (c # cs) = c # collapseBlanks cs" using False by simp
    have "collapseBlanks cs = [] \<or> P c (hd (collapseBlanks cs))"
    proof (cases cs)
      case Nil then show ?thesis by simp
    next
      case (Cons b bs)
      with nb have cb: "P c b" by simp
      show ?thesis
      proof (cases "isBlank b")
        case True with assms(1)[OF cb] Cons show ?thesis by simp
      next
        case False with cb Cons show ?thesis by simp
      qed
    qed
    with 2(2)[OF False tl] show ?thesis unfolding eq by (simp add: successively_Cons)
  qed
qed

lemma collapseNewlines_succ_gen:
  assumes "\<And>a b. P a b \<Longrightarrow> isSpace b \<Longrightarrow> P a 0x0A" "\<And>b. P 0x0A b"
  shows "successively P s \<Longrightarrow> successively P (collapseNewlines s)"
proof (induction s rule: collapseNewlines.induct)
  case 1 then show ?case by simp
next
  case (2 c cs)
  show ?case
  proof (cases "0x0A \<in> set (takeWhile isSpace (c # cs))")
    case True
    have "successively P (dropWhile isSpace (c # cs))"
      using 2(3) by (rule successively_dropWhile)
    moreover have "collapseNewlines (c # cs) = 0x0A # collapseNewlines (dropWhile isSpace (c # cs))"
      using True by simp
    ultimately show ?thesis using 2(1)[OF True] assms(2) by (simp add: successively_Cons)
  next
    case False
    from 2(3) have tl: "successively P cs" and nb: "cs = [] \<or> P c (hd cs)"
      by (auto simp: successively_Cons)
    have eq: "collapseNewlines (c # cs) = c # collapseNewlines cs" using False by simp
    have "collapseNewlines cs = [] \<or> P c (hd (collapseNewlines cs))"
    proof (cases "cs = []")
      case True then show ?thesis by simp
    next
      case ne: False
      with nb have cb: "P c (hd cs)" by simp
      note h = collapseNewlines_hd_eq[OF ne]
      show ?thesis
      proof (cases "0x0A \<in> set (takeWhile isSpace cs)")
        case True
        with ne have "isSpace (hd cs)" by (cases cs) (auto split: if_splits)
        from assms(1)[OF cb this] h True show ?thesis by simp
      next
        case False
        with h cb show ?thesis by simp
      qed
    qed
    with 2(2)[OF False tl] show ?thesis unfolding eq by (simp add: successively_Cons)
  qed
qed

text \<open>
  The code units as integers: the surrogate ranges, and the round trip between a
  code unit and its value.
\<close>

lemma isHigh_uint: "isHigh c \<longleftrightarrow> 0xD800 \<le> uint c \<and> uint c \<le> 0xDBFF"
  by (simp add: isHigh_def word_le_def)

lemma isLow_uint: "isLow c \<longleftrightarrow> 0xDC00 \<le> uint c \<and> uint c \<le> 0xDFFF"
  by (simp add: isLow_def word_le_def)

lemma uint_unit16: "0 \<le> uint (c :: unit16)" "uint (c :: unit16) < 0x10000"
  using uint_lt2p[of c] by simp_all

lemma unit_of_int: "0 \<le> k \<Longrightarrow> k < 0x10000 \<Longrightarrow> uint (of_int k :: unit16) = k"
  by (simp add: uint_word_of_int take_bit_int_eq_self)

lemma unit_eq_iff: "(c :: unit16) = d \<longleftrightarrow> uint c = uint d"
  by (simp add: word_uint_eq_iff)

text \<open>
  \<^verbatim>\<open>CodePointsToString\<close> encodes code point by code point, and it undoes
  \<^verbatim>\<open>StringToCodePoints\<close> on every string, also on one with lone surrogates.
\<close>

lemma fromCodePoints_append:
  "fromCodePoints (a @ b) = fromCodePoints a @ fromCodePoints b"
  by (induction a) simp_all

lemma pairValue_range:
  assumes "isHigh h" "isLow l"
  shows "0x10000 \<le> pairValue h l" "pairValue h l < 0x110000"
  using assms by (simp_all add: pairValue_def isHigh_uint isLow_uint)

lemma pairValue_split:
  assumes "isHigh h" "isLow l"
  shows "(pairValue h l - 0x10000) div 0x400 = uint h - 0xD800"
    "(pairValue h l - 0x10000) mod 0x400 = uint l - 0xDC00"
proof -
  have eq: "pairValue h l - 0x10000 = 0x400 * (uint h - 0xD800) + (uint l - 0xDC00)"
    by (simp add: pairValue_def)
  have r: "0 \<le> uint l - 0xDC00" "uint l - 0xDC00 < 0x400"
    using assms(2) by (simp_all add: isLow_uint)
  show "(pairValue h l - 0x10000) div 0x400 = uint h - 0xD800"
    using eq r by (rule int_div_pos_eq)
  show "(pairValue h l - 0x10000) mod 0x400 = uint l - 0xDC00"
    using eq r by (rule int_mod_pos_eq)
qed

lemma pairValue_encode:
  assumes "isHigh h" "isLow l"
  shows "fromCodePoints [pairValue h l] = [h, l]"
proof -
  have nlt: "\<not> pairValue h l < 0x10000" using pairValue_range(1)[OF assms] by simp
  have e1: "0xD800 + (pairValue h l - 0x10000) div 0x400 = uint h"
    and e2: "0xDC00 + (pairValue h l - 0x10000) mod 0x400 = uint l"
    by (simp_all add: pairValue_split[OF assms])
  show ?thesis
    by (simp only: fromCodePoints.simps nlt if_False e1 e2 word_of_int_uint append_Nil2)
qed

lemma fromCodePoints_toCodePoints: "fromCodePoints (toCodePoints s) = s"
proof (induction s rule: toCodePoints.induct)
  case 1 then show ?case by simp
next
  case (2 c) then show ?case using uint_unit16[of c] by simp
next
  case (3 h l cs)
  show ?case
  proof (cases "isHigh h \<and> isLow l")
    case True
    then have pe: "fromCodePoints [pairValue h l] = [h, l]"
      by (intro pairValue_encode) simp_all
    have tc: "toCodePoints (h # l # cs) = [pairValue h l] @ toCodePoints cs"
      using True by simp
    show ?thesis unfolding tc fromCodePoints_append pe 3(1)[OF True] by simp
  next
    case False
    then have tc: "toCodePoints (h # l # cs) = uint h # toCodePoints (l # cs)" by auto
    show ?thesis unfolding tc using 3(2)[OF False] uint_unit16[of h] by simp
  qed
qed

text \<open>
  \<^verbatim>\<open>toLowerCase\<close> is the identity on a string that is \<open>lowerStable\<close>: all its
  code points are left alone by the mapping.
\<close>

lemma lowerCodePoints_fixed:
  "\<forall>c\<in>set cps. lowerFixed ucd c \<Longrightarrow> lowerCodePoints ucd passed cps = cps"
  by (induction cps arbitrary: passed) (simp_all add: lowerFixed_def)

lemma toCodePoints_stable:
  "lowerStable ucd s \<Longrightarrow> \<forall>c\<in>set (toCodePoints s). lowerFixed ucd c"
proof (induction s rule: toCodePoints.induct)
  case 1 then show ?case by simp
next
  case (2 c) then show ?case by (simp add: lowerStable_def)
next
  case (3 h l cs)
  from 3(3) have tl: "lowerStable ucd (l # cs)" and tl2: "lowerStable ucd cs"
    and hd: "lowerFixed ucd (uint h)" and pr: "stablePair ucd h l"
    by (auto simp: lowerStable_def successively_Cons)
  show ?case
  proof (cases "isHigh h \<and> isLow l")
    case True
    with pr have "lowerFixed ucd (pairValue h l)" by (simp add: stablePair_def)
    with True 3(1)[OF True tl2] show ?thesis by simp
  next
    case False
    with hd 3(2)[OF False tl] show ?thesis by auto
  qed
qed

lemma toLowerCase_stable: "lowerStable ucd s \<Longrightarrow> toLowerCase ucd s = s"
  by (simp add: toLowerCase_def lowerCodePoints_fixed[OF toCodePoints_stable]
      fromCodePoints_toCodePoints)

text \<open>
  The encoding of code points that are left alone by the mapping, none of them a high
  surrogate, is \<open>lowerStable\<close> and does not end with a high surrogate.
\<close>

lemma surrogate_unit: "isSurrogate (uint c) \<longleftrightarrow> isHigh c \<or> isLow c"
  by (auto simp: isSurrogate_def isHigh_uint isLow_uint)

lemma low_not_high: "isLow c \<Longrightarrow> \<not> isHigh c"
  by (simp add: isHigh_uint isLow_uint)

lemma lowerStable_Nil: "lowerStable ucd []"
  by (simp add: lowerStable_def)

lemma lowerStable_single: "lowerStable ucd [c] \<longleftrightarrow> lowerFixed ucd (uint c)"
  by (simp add: lowerStable_def)

lemma lowerStable_append:
  assumes "lowerStable ucd xs" "lowerStable ucd ys" "xs = [] \<or> \<not> isHigh (last xs)"
  shows "lowerStable ucd (xs @ ys)"
  using assms by (auto simp: lowerStable_def successively_append_iff stablePair_def)

lemma caseStableD:
  assumes "caseStable ucd"
  shows "isSurrogate cp \<Longrightarrow> uc_lower ucd cp = [cp]"
    and "isCodePoint cp \<Longrightarrow> \<not> isSurrogate cp \<Longrightarrow> c \<in> set (uc_lower ucd cp) \<Longrightarrow>
      isCodePoint c \<and> \<not> isSurrogate c \<and> lowerFixed ucd c"
    and "lowerFixed ucd 0x3C2" and "lowerFixed ucd 0x3C3"
    and "lowerFixed ucd 0x20" and "lowerFixed ucd 0x0A"
    and "isCodePoint cp \<Longrightarrow> cp \<noteq> 0xA0 \<Longrightarrow> 0xA0 \<notin> set (uc_lower ucd cp)"
  using assms unfolding caseStable_def by blast+

lemma surrogate_fixed:
  assumes "caseStable ucd" "isSurrogate cp"
  shows "lowerFixed ucd cp"
proof -
  have "uc_lower ucd cp = [cp]" using assms by (rule caseStableD(1))
  moreover from assms(2) have "cp \<noteq> 0x3A3" by (auto simp: isSurrogate_def)
  ultimately show ?thesis by (simp add: lowerFixed_def)
qed

lemma encode_bmp:
  assumes "isCodePoint c" "c < 0x10000"
  shows "\<exists>u. fromCodePoints [c] = [u] \<and> uint u = c"
  using assms by (simp add: unit_of_int isCodePoint_def)

lemma encode_supplementary:
  assumes cp: "isCodePoint c" and big: "\<not> c < 0x10000"
  shows "\<exists>h l. fromCodePoints [c] = [h, l] \<and> isHigh h \<and> isLow l \<and> pairValue h l = c"
proof -
  define a where "a = (c - 0x10000) div 0x400"
  define b where "b = (c - 0x10000) mod 0x400"
  define h :: unit16 where "h = of_int (0xD800 + a)"
  define l :: unit16 where "l = of_int (0xDC00 + b)"
  have ra: "0 \<le> a" "a < 0x400" using cp big unfolding a_def isCodePoint_def by simp_all
  have rb: "0 \<le> b" "b < 0x400" unfolding b_def by simp_all
  have c_eq: "c - 0x10000 = 0x400 * a + b" unfolding a_def b_def by simp
  have "0 \<le> 0xD800 + a" "0xD800 + a < 0x10000" using ra by simp_all
  then have uh: "uint h = 0xD800 + a" unfolding h_def by (rule unit_of_int)
  have "0 \<le> 0xDC00 + b" "0xDC00 + b < 0x10000" using rb by simp_all
  then have ul: "uint l = 0xDC00 + b" unfolding l_def by (rule unit_of_int)
  have hh: "isHigh h" using ra by (simp add: isHigh_uint uh)
  have ll: "isLow l" using rb by (simp add: isLow_uint ul)
  have pv: "pairValue h l = c" using c_eq by (simp add: pairValue_def uh ul)
  have f: "fromCodePoints [c] = [h, l]"
    unfolding h_def l_def a_def b_def using big by simp
  from f hh ll pv show ?thesis by blast
qed

lemma encode_stable:
  assumes cs: "caseStable ucd" and cp: "isCodePoint c" and fx: "lowerFixed ucd c"
    and nh: "\<not> (0xD800 \<le> c \<and> c \<le> 0xDBFF)"
  shows "lowerStable ucd (fromCodePoints [c]) \<and> fromCodePoints [c] \<noteq> [] \<and>
    \<not> isHigh (last (fromCodePoints [c]))"
proof (cases "c < 0x10000")
  case True
  from encode_bmp[OF cp True] obtain u where f: "fromCodePoints [c] = [u]" and u: "uint u = c"
    by blast
  show ?thesis unfolding f using u fx nh by (simp add: lowerStable_single isHigh_uint)
next
  case False
  from encode_supplementary[OF cp False] obtain h l where f: "fromCodePoints [c] = [h, l]"
    and hh: "isHigh h" and ll: "isLow l" and pv: "pairValue h l = c" by blast
  have fh: "lowerFixed ucd (uint h)" using surrogate_fixed[OF cs] hh surrogate_unit by blast
  have fl: "lowerFixed ucd (uint l)" using surrogate_fixed[OF cs] ll surrogate_unit by blast
  show ?thesis unfolding f using fh fl ll pv fx low_not_high[OF ll]
    by (simp add: lowerStable_def stablePair_def)
qed

lemma encode_list_stable:
  assumes cs: "caseStable ucd"
  shows "\<forall>c\<in>set m. isCodePoint c \<and> lowerFixed ucd c \<and> \<not> (0xD800 \<le> c \<and> c \<le> 0xDBFF) \<Longrightarrow>
    lowerStable ucd (fromCodePoints m) \<and>
    (fromCodePoints m = [] \<or> \<not> isHigh (last (fromCodePoints m)))"
proof (induction m)
  case Nil then show ?case by (simp add: lowerStable_Nil)
next
  case (Cons c m)
  define e where "e = fromCodePoints [c]"
  define r where "r = fromCodePoints m"
  have split: "fromCodePoints (c # m) = e @ r"
    unfolding e_def r_def using fromCodePoints_append[of "[c]" m] by simp
  from Cons.prems have "isCodePoint c" "lowerFixed ucd c" "\<not> (0xD800 \<le> c \<and> c \<le> 0xDBFF)"
    by simp_all
  from encode_stable[OF cs this] have e: "lowerStable ucd e" "e \<noteq> []" "\<not> isHigh (last e)"
    unfolding e_def by simp_all
  from Cons.IH Cons.prems have r: "lowerStable ucd r" "r = [] \<or> \<not> isHigh (last r)"
    unfolding r_def by simp_all
  from lowerStable_append[OF e(1) r(1)] e(3) have "lowerStable ucd (e @ r)" by simp
  moreover have "\<not> isHigh (last (e @ r))" using e(2,3) r(2) by (cases "r = []") simp_all
  ultimately show ?case unfolding split by simp
qed

text \<open>
  Under \<open>caseStable\<close> the mapping of a code point that is no high surrogate holds
  only such code points, whether or not the sigma is final. So the lower-cased form of a
  string whose high surrogates are paired is \<open>lowerStable\<close>.
\<close>

lemma mapping_ok:
  assumes cs: "caseStable ucd" and cp: "isCodePoint c"
    and nh: "\<not> (0xD800 \<le> c \<and> c \<le> 0xDBFF)"
    and m_def: "m = (if c = 0x3A3 then (if fs then [0x3C2] else [0x3C3]) else uc_lower ucd c)"
  shows "\<forall>x\<in>set m. isCodePoint x \<and> lowerFixed ucd x \<and> \<not> (0xD800 \<le> x \<and> x \<le> 0xDBFF)"
proof (cases "c = 0x3A3")
  case True
  from cs have "lowerFixed ucd 0x3C2" "lowerFixed ucd 0x3C3" by (rule caseStableD)+
  with True show ?thesis by (simp add: m_def isCodePoint_def)
next
  case ns: False
  show ?thesis
  proof (cases "isSurrogate c")
    case True
    with cs have "uc_lower ucd c = [c]" by (rule caseStableD(1))
    with ns cp nh surrogate_fixed[OF cs True] show ?thesis by (simp add: m_def)
  next
    case False
    from caseStableD(2)[OF cs cp False] have "\<forall>x\<in>set (uc_lower ucd c).
        isCodePoint x \<and> \<not> isSurrogate x \<and> lowerFixed ucd x" by blast
    with ns show ?thesis by (auto simp: m_def isSurrogate_def)
  qed
qed

lemma lowered_step:
  assumes cs: "caseStable ucd" and cp: "isCodePoint c"
    and nh: "\<not> (0xD800 \<le> c \<and> c \<le> 0xDBFF)"
    and rest: "lowerStable ucd (fromCodePoints (lowerCodePoints ucd (c # passed) ahead))"
  shows "lowerStable ucd (fromCodePoints (lowerCodePoints ucd passed (c # ahead)))"
proof -
  define m where "m = (if c = 0x3A3 then (if finalSigma ucd passed ahead then [0x3C2] else [0x3C3])
    else uc_lower ucd c)"
  have eq: "lowerCodePoints ucd passed (c # ahead) = m @ lowerCodePoints ucd (c # passed) ahead"
    unfolding m_def by simp
  from cs cp nh m_def
  have "\<forall>x\<in>set m. isCodePoint x \<and> lowerFixed ucd x \<and> \<not> (0xD800 \<le> x \<and> x \<le> 0xDBFF)"
    by (rule mapping_ok)
  from encode_list_stable[OF cs this]
  have "lowerStable ucd (fromCodePoints m)"
    "fromCodePoints m = [] \<or> \<not> isHigh (last (fromCodePoints m))" by simp_all
  from lowerStable_append[OF this(1) rest this(2)] show ?thesis
    unfolding eq fromCodePoints_append .
qed

lemma unit_codepoint: "isCodePoint (uint (c :: unit16))"
  using uint_unit16[of c] by (simp add: isCodePoint_def)

lemma pair_codepoint: "isHigh h \<Longrightarrow> isLow l \<Longrightarrow> isCodePoint (pairValue h l)"
  using pairValue_range[of h l] by (simp add: isCodePoint_def)

lemma lowered_stable:
  assumes cs: "caseStable ucd"
  shows "highsPaired s \<Longrightarrow>
    lowerStable ucd (fromCodePoints (lowerCodePoints ucd passed (toCodePoints s)))"
proof (induction s arbitrary: passed rule: toCodePoints.induct)
  case 1 then show ?case by (simp add: lowerStable_Nil)
next
  case (2 c)
  show ?case
  proof (cases "isHigh c")
    case True
    then have sg: "isSurrogate (uint c)" by (simp add: surrogate_unit)
    from surrogate_fixed[OF cs sg] have fx: "lowerFixed ucd (uint c)" .
    then have "lowerCodePoints ucd passed (toCodePoints [c]) = toCodePoints [c]"
      by (intro lowerCodePoints_fixed) simp
    then show ?thesis
      unfolding fromCodePoints_toCodePoints using fx
      by (simp only: fromCodePoints_toCodePoints lowerStable_single)
  next
    case False
    then have nh: "\<not> (0xD800 \<le> uint c \<and> uint c \<le> 0xDBFF)" by (simp add: isHigh_uint)
    have "lowerStable ucd (fromCodePoints (lowerCodePoints ucd passed (uint c # [])))"
      using cs unit_codepoint nh by (rule lowered_step) (simp add: lowerStable_Nil)
    then show ?thesis by simp
  qed
next
  case (3 h l cs')
  from 3(3) have hl: "isHigh h \<longrightarrow> isLow l" and tl: "highsPaired (l # cs')"
    and tl2: "highsPaired cs'"
    by (auto simp: highsPaired_def successively_Cons)
  show ?case
  proof (cases "isHigh h \<and> isLow l")
    case True
    then have tc: "toCodePoints (h # l # cs') = pairValue h l # toCodePoints cs'" by simp
    from True have cp: "isCodePoint (pairValue h l)" by (simp add: pair_codepoint)
    from True have nh: "\<not> (0xD800 \<le> pairValue h l \<and> pairValue h l \<le> 0xDBFF)"
      using pairValue_range(1)[of h l] by simp
    show ?thesis unfolding tc using cs cp nh by (rule lowered_step) (rule 3(1)[OF True tl2])
  next
    case False
    then have tc: "toCodePoints (h # l # cs') = uint h # toCodePoints (l # cs')" by auto
    from False hl have "\<not> isHigh h" by blast
    then have nh: "\<not> (0xD800 \<le> uint h \<and> uint h \<le> 0xDBFF)" by (simp add: isHigh_uint)
    show ?thesis unfolding tc using cs unit_codepoint nh
      by (rule lowered_step) (rule 3(2)[OF False tl])
  qed
qed

lemma toLowerCase_lowerStable:
  "caseStable ucd \<Longrightarrow> highsPaired s \<Longrightarrow> lowerStable ucd (toLowerCase ucd s)"
  unfolding toLowerCase_def by (rule lowered_stable)

text \<open>
  Under \<open>caseStable\<close> \<^verbatim>\<open>toLowerCase\<close> brings no non-breaking space into a string
  that has none.
\<close>

lemma nbsp_unit: "uint (c :: unit16) = 0xA0 \<longleftrightarrow> c = 0xA0"
  by (simp add: unit_eq_iff)

lemma toCodePoints_range:
  "\<forall>c\<in>set (toCodePoints s). isCodePoint c \<and> (c = 0xA0 \<longrightarrow> 0xA0 \<in> set s)"
proof (induction s rule: toCodePoints.induct)
  case 1 then show ?case by simp
next
  case (2 c) then show ?case by (simp add: unit_codepoint nbsp_unit)
next
  case (3 h l cs)
  show ?case
  proof (cases "isHigh h \<and> isLow l")
    case True
    then have tc: "toCodePoints (h # l # cs) = pairValue h l # toCodePoints cs" by simp
    from True have "isCodePoint (pairValue h l)" "pairValue h l \<noteq> 0xA0"
      using pairValue_range(1)[of h l] by (simp_all add: pair_codepoint)
    with 3(1)[OF True] show ?thesis unfolding tc by auto
  next
    case False
    then have tc: "toCodePoints (h # l # cs) = uint h # toCodePoints (l # cs)" by auto
    from 3(2)[OF False] show ?thesis unfolding tc by (auto simp: unit_codepoint nbsp_unit)
  qed
qed

lemma lowered_range:
  assumes cs: "caseStable ucd"
  shows "\<forall>c\<in>set cps. isCodePoint c \<Longrightarrow>
    \<forall>x\<in>set (lowerCodePoints ucd passed cps). isCodePoint x \<and> (x = 0xA0 \<longrightarrow> 0xA0 \<in> set cps)"
proof (induction cps arbitrary: passed)
  case Nil then show ?case by simp
next
  case (Cons c cps)
  define m where "m = (if c = 0x3A3 then (if finalSigma ucd passed cps then [0x3C2] else [0x3C3])
    else uc_lower ucd c)"
  have eq: "lowerCodePoints ucd passed (c # cps) = m @ lowerCodePoints ucd (c # passed) cps"
    unfolding m_def by simp
  from Cons.prems have cp: "isCodePoint c" by simp
  have m: "\<forall>x\<in>set m. isCodePoint x \<and> (x = 0xA0 \<longrightarrow> c = 0xA0)"
  proof (cases "c = 0x3A3")
    case True then show ?thesis by (simp add: m_def isCodePoint_def)
  next
    case ns: False
    show ?thesis
    proof (cases "isSurrogate c")
      case True
      with cs have "uc_lower ucd c = [c]" by (rule caseStableD(1))
      with ns cp show ?thesis by (simp add: m_def)
    next
      case False
      from caseStableD(2)[OF cs cp False] have a: "\<forall>x\<in>set (uc_lower ucd c). isCodePoint x"
        by blast
      from caseStableD(7)[OF cs cp] have "c \<noteq> 0xA0 \<longrightarrow> 0xA0 \<notin> set (uc_lower ucd c)" by blast
      with a ns show ?thesis by (auto simp: m_def)
    qed
  qed
  from Cons.IH[of "c # passed"] Cons.prems
  have r: "\<forall>x\<in>set (lowerCodePoints ucd (c # passed) cps).
      isCodePoint x \<and> (x = 0xA0 \<longrightarrow> 0xA0 \<in> set cps)" by simp
  from m r show ?case unfolding eq by auto
qed

lemma encoded_nbsp:
  "\<forall>c\<in>set cps. isCodePoint c \<Longrightarrow> 0xA0 \<in> set (fromCodePoints cps) \<Longrightarrow> 0xA0 \<in> set cps"
proof (induction cps)
  case Nil then show ?case by simp
next
  case (Cons c cps)
  define e where "e = fromCodePoints [c]"
  have split: "fromCodePoints (c # cps) = e @ fromCodePoints cps"
    unfolding e_def using fromCodePoints_append[of "[c]" cps] by simp
  from Cons.prems(1) have cp: "isCodePoint c" by simp
  have "0xA0 \<in> set e \<longrightarrow> c = 0xA0"
  proof (cases "c < 0x10000")
    case True
    from encode_bmp[OF cp True] obtain u where "e = [u]" "uint u = c" unfolding e_def by blast
    then show ?thesis by (auto simp: nbsp_unit)
  next
    case False
    from encode_supplementary[OF cp False] obtain h l where "e = [h, l]" "isHigh h" "isLow l"
      unfolding e_def by blast
    then show ?thesis by (auto simp: isHigh_def isLow_def)
  qed
  with Cons show ?case unfolding split by auto
qed

lemma toLowerCase_nbsp:
  assumes cs: "caseStable ucd" and no: "0xA0 \<notin> set s"
  shows "0xA0 \<notin> set (toLowerCase ucd s)"
proof
  assume a: "0xA0 \<in> set (toLowerCase ucd s)"
  from toCodePoints_range[of s] have cp: "\<forall>c\<in>set (toCodePoints s). isCodePoint c" by blast
  note lr = lowered_range[OF cs cp, of "[]"]
  then have "\<forall>x\<in>set (lowerCodePoints ucd [] (toCodePoints s)). isCodePoint x" by blast
  from encoded_nbsp[OF this] a have "0xA0 \<in> set (lowerCodePoints ucd [] (toCodePoints s))"
    by (simp add: toLowerCase_def)
  with lr have "0xA0 \<in> set (toCodePoints s)" by blast
  with toCodePoints_range[of s] have "0xA0 \<in> set s" by blast
  with no show False by contradiction
qed

text \<open>
  The later stages keep a string \<open>lowerStable\<close>: the code units they drop are no
  low surrogates, and the space and the line feed they insert are no high surrogates and
  are left alone by the mapping.
\<close>

lemma not_low_classes:
  "isZeroWidth b \<Longrightarrow> \<not> isLow b" "isBlank b \<Longrightarrow> \<not> isLow b" "isSpace b \<Longrightarrow> \<not> isLow b"
  by (auto simp: isZeroWidth_def isBlank_def isSpace_def isLow_def word_le_def)

lemma stablePair_fresh: "stablePair ucd 0x20 b" "stablePair ucd 0x0A b"
  by (simp_all add: stablePair_def isHigh_def)

lemma stablePair_dropped: "stablePair ucd a b \<Longrightarrow> \<not> isLow b \<Longrightarrow> stablePair ucd a c"
  by (auto simp: stablePair_def)

lemma replaceNbsp_paired: "highsPaired s \<Longrightarrow> highsPaired (replaceNbsp s)"
  unfolding highsPaired_def replaceNbsp_def successively_map
  by (erule successively_mono) (auto simp: isHigh_def isLow_def)

lemma stages_lowerStable:
  assumes cs: "caseStable ucd" and st: "lowerStable ucd s"
  shows "lowerStable ucd (trim (collapseNewlines (collapseBlanks (stripZeroWidth s))))"
proof -
  let ?s3 = "stripZeroWidth s"
  let ?s4 = "collapseBlanks ?s3"
  let ?s5 = "collapseNewlines ?s4"
  let ?F = "\<lambda>c :: unit16. lowerFixed ucd (uint c)"
  from st have f2: "\<forall>c\<in>set s. ?F c" and p2: "successively (stablePair ucd) s"
    by (simp_all add: lowerStable_def)
  from caseStableD(5,6)[OF cs] have fresh: "?F 0x20" "?F 0x0A" by simp_all
  from f2 have f3: "\<forall>c\<in>set ?s3. ?F c" by (simp add: stripZeroWidth_def)
  with fresh(1) have f4: "\<forall>c\<in>set ?s4. ?F c" using set_collapseBlanks[of ?s3] by auto
  with fresh(2) have f5: "\<forall>c\<in>set ?s5. ?F c" using set_collapseNewlines[of ?s4] by auto
  then have f6: "\<forall>c\<in>set (trim ?s5). ?F c" using set_trim[of ?s5] by auto
  have p3: "successively (stablePair ucd) ?s3"
    unfolding stripZeroWidth_def using _ p2
    by (rule successively_filter_drop) (auto intro: stablePair_dropped dest: not_low_classes(1))
  have p4: "successively (stablePair ucd) ?s4"
    using _ _ p3
    by (rule collapseBlanks_succ_gen)
       (auto intro: stablePair_dropped stablePair_fresh dest: not_low_classes(2))
  have p5: "successively (stablePair ucd) ?s5"
    using _ _ p4
    by (rule collapseNewlines_succ_gen)
       (auto intro: stablePair_dropped stablePair_fresh dest: not_low_classes(3))
  have "successively (stablePair ucd) (trim ?s5)" using p5 by (rule successively_trim)
  with f6 show ?thesis by (simp add: lowerStable_def)
qed

text \<open>
  So the normalized text is a fixed point of \<^verbatim>\<open>toLowerCase\<close> and holds no
  non-breaking space; and, for any case mapping, it has the form that each later stage
  establishes.
\<close>

lemma normalizeText_lowered:
  assumes "caseStable ucd" "highsPaired (orEmpty x)"
  shows "toLowerCase ucd (normalizeText ucd x) = normalizeText ucd x"
proof -
  from assms(2) have "highsPaired (replaceNbsp (orEmpty x))" by (rule replaceNbsp_paired)
  with assms(1) have "lowerStable ucd (toLowerCase ucd (replaceNbsp (orEmpty x)))"
    by (rule toLowerCase_lowerStable)
  with assms(1) have "lowerStable ucd (normalizeText ucd x)"
    unfolding normalizeText_def by (rule stages_lowerStable)
  then show ?thesis by (rule toLowerCase_stable)
qed

lemma normalizeText_nbsp:
  assumes "caseStable ucd"
  shows "0xA0 \<notin> set (normalizeText ucd x)"
proof -
  let ?s1 = "replaceNbsp (orEmpty x)"
  let ?s2 = "toLowerCase ucd ?s1"
  let ?s3 = "stripZeroWidth ?s2"
  let ?s4 = "collapseBlanks ?s3"
  let ?s5 = "collapseNewlines ?s4"
  have "0xA0 \<notin> set ?s1" by (auto simp: replaceNbsp_def)
  with assms have "0xA0 \<notin> set ?s2" by (rule toLowerCase_nbsp)
  then have "0xA0 \<notin> set ?s3" by (simp add: stripZeroWidth_def)
  then have "0xA0 \<notin> set ?s4" using set_collapseBlanks[of ?s3] by auto
  then have "0xA0 \<notin> set ?s5" using set_collapseNewlines[of ?s4] by auto
  then show ?thesis using set_trim[of ?s5] unfolding normalizeText_def by auto
qed

lemma normalizeText_stages:
  fixes x :: jstext and ucd :: unicode_data
  defines "y \<equiv> normalizeText ucd x"
  shows "\<forall>c\<in>set y. \<not> isZeroWidth c" "blanksCollapsed y" "newlinesCollapsed y" "trimmed y"
proof -
  let ?s2 = "toLowerCase ucd (replaceNbsp (orEmpty x))"
  let ?s3 = "stripZeroWidth ?s2"
  let ?s4 = "collapseBlanks ?s3"
  let ?s5 = "collapseNewlines ?s4"
  have y: "y = trim ?s5" by (simp add: y_def normalizeText_def)
  have "\<forall>c\<in>set ?s3. \<not> isZeroWidth c" by (simp add: stripZeroWidth_def)
  then have "\<forall>c\<in>set ?s4. \<not> isZeroWidth c" using set_collapseBlanks[of ?s3] by auto
  then have "\<forall>c\<in>set ?s5. \<not> isZeroWidth c" using set_collapseNewlines[of ?s4] by auto
  then show "\<forall>c\<in>set y. \<not> isZeroWidth c" using set_trim[of ?s5] unfolding y by auto
  have b4: "blanksCollapsed ?s4" by (rule collapseBlanks_collapsed)
  then have "0x09 \<notin> set ?s5" using set_collapseNewlines[of ?s4] by (auto simp: blanksCollapsed_def)
  then have t: "0x09 \<notin> set y" using set_trim[of ?s5] unfolding y by auto
  from b4 have "successively (\<lambda>a b. \<not> (isBlank a \<and> isBlank b)) ?s5"
    unfolding blanksCollapsed_def by (intro collapseNewlines_succ_gen) simp_all
  then have "successively (\<lambda>a b. \<not> (isBlank a \<and> isBlank b)) y"
    unfolding y by (rule successively_trim)
  with t show "blanksCollapsed y" by (simp add: blanksCollapsed_def)
  have "newlinesCollapsed ?s5" by (rule collapseNewlines_collapsed)
  then show "newlinesCollapsed y" unfolding y newlinesCollapsed_def by (rule successively_trim)
  show "trimmed y" unfolding y by (rule trim_trimmed)
qed

text \<open>
  The excerpt of the database has the properties \<open>caseStable\<close> asks for.
\<close>

lemma excerptLower_fixed:
  "c \<in> set (excerptLower cp) \<Longrightarrow> excerptLower c = [c] \<and> c \<noteq> 0x3A3"
  unfolding excerptLower_def by (auto split: if_splits)

lemma excerptLower_range:
  "0 \<le> cp \<Longrightarrow> cp < 0x110000 \<Longrightarrow> \<not> (0xD800 \<le> cp \<and> cp \<le> 0xDFFF) \<Longrightarrow>
   c \<in> set (excerptLower cp) \<Longrightarrow>
   0 \<le> c \<and> c < 0x110000 \<and> \<not> (0xD800 \<le> c \<and> c \<le> 0xDFFF) \<and> (c = 0xA0 \<longrightarrow> cp = 0xA0)"
  unfolding excerptLower_def by (auto split: if_splits)

lemma caseStable_excerpt: "caseStable ucdExcerpt"
proof -
  have 1: "\<forall>cp. isSurrogate cp \<longrightarrow> uc_lower ucdExcerpt cp = [cp]"
    by (simp add: ucdExcerpt_def isSurrogate_def excerptLower_def)
  have 2: "\<forall>cp c. isCodePoint cp \<and> \<not> isSurrogate cp \<and> c \<in> set (uc_lower ucdExcerpt cp) \<longrightarrow>
      isCodePoint c \<and> \<not> isSurrogate c \<and> lowerFixed ucdExcerpt c"
    using excerptLower_fixed excerptLower_range
    by (simp add: ucdExcerpt_def isSurrogate_def isCodePoint_def lowerFixed_def) blast
  have 3: "lowerFixed ucdExcerpt 0x3C2" "lowerFixed ucdExcerpt 0x3C3"
    "lowerFixed ucdExcerpt 0x20" "lowerFixed ucdExcerpt 0x0A"
    by (simp_all add: ucdExcerpt_def lowerFixed_def excerptLower_def)
  have 4: "\<forall>cp. isCodePoint cp \<and> cp \<noteq> 0xA0 \<longrightarrow> 0xA0 \<notin> set (uc_lower ucdExcerpt cp)"
    unfolding ucdExcerpt_def excerptLower_def by (auto split: if_splits)
  from 1 2 3 4 show ?thesis unfolding caseStable_def by blast
qed

text \<open>
  C7 (as amended). Normalizing a normalized text changes nothing whenever the
  normalized text holds no non-breaking space and is left unchanged by
  \<^verbatim>\<open>toLowerCase\<close>. With the case mappings of the Unicode Character Database
  (\<open>caseStable\<close>) this is the case for every text in which each high surrogate is
  directly followed by a low surrogate, hence for every well-formed string.
\<close>

theorem normalizeText_idempotent:
  assumes "caseStable ucd \<and> highsPaired (orEmpty x) \<or>
    0xA0 \<notin> set (normalizeText ucd x) \<and>
    toLowerCase ucd (normalizeText ucd x) = normalizeText ucd x"
  shows "normalizeText ucd (Str (normalizeText ucd x)) = normalizeText ucd x"
proof -
  from assms have nb: "0xA0 \<notin> set (normalizeText ucd x)"
    using normalizeText_nbsp by blast
  from assms have low: "toLowerCase ucd (normalizeText ucd x) = normalizeText ucd x"
    using normalizeText_lowered by blast
  note st = normalizeText_stages[of ucd x]
  show ?thesis
    unfolding normalizeText_def[of ucd "Str (normalizeText ucd x)"]
    by (simp add: replaceNbsp_id[OF nb] low stripZeroWidth_id[OF st(1)]
        collapseBlanks_id[OF st(2)] collapseNewlines_id[OF st(3)] trim_id[OF st(4)])
qed

theorem normalizeText_idempotent_witness:
  "caseStable ucdExcerpt \<and>
   highsPaired [0x20, 0x48, 0xD801, 0xDC00, 0x200B, 0x0A, 0x0A, 0x09, 0x130, 0xA0, 0x20,
     0x391, 0x3A3, 0x0A] \<and>
   normalizeText ucdExcerpt
     (Str [0x20, 0x48, 0xD801, 0xDC00, 0x200B, 0x0A, 0x0A, 0x09, 0x130, 0xA0, 0x20,
       0x391, 0x3A3, 0x0A]) =
     [0x68, 0xD801, 0xDC28, 0x0A, 0x69, 0x307, 0x20, 0x3B1, 0x3C2] \<and>
   normalizeText ucdExcerpt (Str [0x68, 0xD801, 0xDC28, 0x0A, 0x69, 0x307, 0x20, 0x3B1, 0x3C2]) =
     [0x68, 0xD801, 0xDC28, 0x0A, 0x69, 0x307, 0x20, 0x3B1, 0x3C2]"
proof -
  let ?x = "[0x20, 0x48, 0xD801, 0xDC00, 0x200B, 0x0A, 0x0A, 0x09, 0x130, 0xA0, 0x20,
             0x391, 0x3A3, 0x0A] :: jsstring"
  have c: "caseStable ucdExcerpt" by (rule caseStable_excerpt)
  have p: "highsPaired (orEmpty (Str ?x))"
    by (simp add: highsPaired_def isHigh_def isLow_def)
  have v: "normalizeText ucdExcerpt (Str ?x) =
      [0x68, 0xD801, 0xDC28, 0x0A, 0x69, 0x307, 0x20, 0x3B1, 0x3C2]"
    by code_simp
  from normalizeText_idempotent[of ucdExcerpt "Str ?x"] c p
  have "normalizeText ucdExcerpt (Str (normalizeText ucdExcerpt (Str ?x))) =
      normalizeText ucdExcerpt (Str ?x)" by blast
  with c p v show ?thesis by simp
qed

text \<open>
  C7 as stated fails on a string with unpaired surrogates: in D801 200B DC00 the two
  surrogates are apart when \<^verbatim>\<open>toLowerCase\<close> runs, so each is a code point of its
  own and stays; removing the zero-width space joins them into U+10400, an upper-case
  Deseret letter, which the second call turns into U+10428.
\<close>

theorem normalizeText_idempotent_counterexample:
  "normalizeText ucdExcerpt (Str [0xD801, 0x200B, 0xDC00]) = [0xD801, 0xDC00] \<and>
   normalizeText ucdExcerpt (Str (normalizeText ucdExcerpt (Str [0xD801, 0x200B, 0xDC00]))) =
     [0xD801, 0xDC28] \<and>
   normalizeText ucdExcerpt (Str (normalizeText ucdExcerpt (Str [0xD801, 0x200B, 0xDC00]))) \<noteq>
     normalizeText ucdExcerpt (Str [0xD801, 0x200B, 0xDC00])"
  by code_simp

section \<open>Properties of the attachment signature\<close>

text \<open>
  C8. The attachment signature does not depend on the order of the attachments: two
  lists that are permutations of each other (the same multiset of attachments) have the
  same signature, for either value of the ignore flag.
\<close>

theorem attsHash_permutation:
  assumes "mset xs = mset ys"
  shows "attsHash (Some xs) ignore = attsHash (Some ys) ignore"
proof -
  from assms have "mset (map attTuple xs) = mset (map attTuple ys)" by simp
  then have sorted_same: "sort (map attTuple xs) = sort (map attTuple ys)"
    by (simp add: properties_for_sort)
  from assms have "xs = [] \<longleftrightarrow> ys = []" by (metis mset_zero_iff)
  with sorted_same show ?thesis by (simp add: attsHash_def)
qed

theorem attsHash_permutation_witness:
  "mset [Some \<lparr>atype = Some (lit ''photo''),
               payload = Some (emptyMedia\<lparr>owner_id := Some (- 5), media_id := Some 120\<rparr>)\<rparr>,
         None,
         Some \<lparr>atype = Some (lit ''doc''), payload = None\<rparr>] =
   mset [Some \<lparr>atype = Some (lit ''doc''), payload = None\<rparr>,
         Some \<lparr>atype = Some (lit ''photo''),
               payload = Some (emptyMedia\<lparr>owner_id := Some (- 5), media_id := Some 120\<rparr>)\<rparr>,
         None] \<and>
   attsHash (Some [Some \<lparr>atype = Some (lit ''photo''),
               payload = Some (emptyMedia\<lparr>owner_id := Some (- 5), media_id := Some 120\<rparr>)\<rparr>,
         None,
         Some \<lparr>atype = Some (lit ''doc''), payload = None\<rparr>]) False =
   attsHash (Some [Some \<lparr>atype = Some (lit ''doc''), payload = None\<rparr>,
         Some \<lparr>atype = Some (lit ''photo''),
               payload = Some (emptyMedia\<lparr>owner_id := Some (- 5), media_id := Some 120\<rparr>)\<rparr>,
         None]) False \<and>
   attsHash (Some [Some \<lparr>atype = Some (lit ''doc''), payload = None\<rparr>,
         Some \<lparr>atype = Some (lit ''photo''),
               payload = Some (emptyMedia\<lparr>owner_id := Some (- 5), media_id := Some 120\<rparr>)\<rparr>,
         None]) False = lit ''doc::::|photo:-5:120::|unknown:''"
proof -
  let ?p = "Some \<lparr>atype = Some (lit ''photo''),
               payload = Some (emptyMedia\<lparr>owner_id := Some (- 5), media_id := Some 120\<rparr>)\<rparr>"
  let ?d = "Some \<lparr>atype = Some (lit ''doc''), payload = None\<rparr>"
  have perm: "mset [?p, None, ?d] = mset [?d, ?p, None]" by simp
  have val: "attsHash (Some [?d, ?p, None]) False = lit ''doc::::|photo:-5:120::|unknown:''"
    by code_simp
  from perm attsHash_permutation[OF perm, of False] val show ?thesis by blast
qed

section \<open>Properties of the Duplicate Planner\<close>

text \<open>
  The loop on a suffix of the entries: its effect on the kept reference and on the plan.
\<close>

lemma sameEntry_signature: "sameEntry ucd ig p c \<longleftrightarrow> signature ucd ig p = signature ucd ig c"
  by (auto simp: sameEntry_def signature_def)

lemma foldl_planStep_acc:
  "snd (foldl (planStep ucd ig) (k, acc) es) = acc @ snd (foldl (planStep ucd ig) (k, []) es) \<and>
   fst (foldl (planStep ucd ig) (k, acc) es) = fst (foldl (planStep ucd ig) (k, []) es)"
proof (induction es arbitrary: k acc)
  case Nil then show ?case by simp
next
  case (Cons e es)
  show ?case
  proof (cases k)
    case None
    then show ?thesis using Cons.IH[of "Some e" acc] by simp
  next
    case (Some p)
    show ?thesis
    proof (cases "sameEntry ucd ig p e")
      case True
      then show ?thesis
        using Some Cons.IH[of "Some p" "acc @ [ident e]"] Cons.IH[of "Some p" "[ident e]"] by simp
    next
      case False
      then show ?thesis using Some Cons.IH[of "Some e" acc] by simp
    qed
  qed
qed

lemma kept_signature:
  "es \<noteq> [] \<Longrightarrow> \<exists>p. fst (foldl (planStep ucd ig) (k, acc) es) = Some p \<and> signature ucd ig p = signature ucd ig (last es)"
proof (induction es arbitrary: k acc rule: rev_induct)
  case Nil then show ?case by simp
next
  case (snoc e es)
  show ?case
  proof (cases "es = []")
    case True
    then show ?thesis by (cases k) (auto simp: sameEntry_signature)
  next
    case False
    from snoc.IH[OF False, of k acc] obtain p where
      p: "fst (foldl (planStep ucd ig) (k, acc) es) = Some p" "signature ucd ig p = signature ucd ig (last es)" by blast
    then obtain d where "foldl (planStep ucd ig) (k, acc) es = (Some p, d)" by (metis prod.collapse)
    then show ?thesis by (auto simp: sameEntry_signature)
  qed
qed

lemma run_all_deleted:
  "\<forall>e\<in>set run. signature ucd ig e = signature ucd ig p \<Longrightarrow>
   foldl (planStep ucd ig) (Some p, acc) run = (Some p, acc @ map ident run)"
  by (induction run arbitrary: acc) (auto simp: sameEntry_signature)

lemma fresh_start:
  "post \<noteq> [] \<Longrightarrow> signature ucd ig p \<noteq> signature ucd ig (hd post) \<Longrightarrow>
   foldl (planStep ucd ig) (Some p, acc) post = foldl (planStep ucd ig) (None, acc) post"
  by (cases post) (auto simp: sameEntry_signature)


lemma after_prefix:
  assumes "pre = [] \<or> signature ucd ig (last pre) \<noteq> signature ucd ig r"
  shows "planStep ucd ig (planLoop ucd ig pre) r = (Some r, planDeletionsAsc ucd ig pre)"
proof (cases "pre = []")
  case True
  then show ?thesis by (simp add: planLoop_def planDeletionsAsc_def)
next
  case False
  from kept_signature[OF False, of ucd ig None "[]"] obtain p where
    p: "fst (planLoop ucd ig pre) = Some p" "signature ucd ig p = signature ucd ig (last pre)"
    by (auto simp: planLoop_def)
  then have "planLoop ucd ig pre = (Some p, planDeletionsAsc ucd ig pre)"
    by (simp add: planDeletionsAsc_def prod_eq_iff)
  moreover have "\<not> sameEntry ucd ig p r" using p assms False by (simp add: sameEntry_signature)
  ultimately show ?thesis by simp
qed

lemma planLoop_run:
  assumes sig: "\<forall>e\<in>set rs. signature ucd ig e = signature ucd ig r"
      and pre: "pre = [] \<or> signature ucd ig (last pre) \<noteq> signature ucd ig r"
  shows "planLoop ucd ig (pre @ r # rs) = (Some r, planDeletionsAsc ucd ig pre @ map ident rs)"
proof -
  have "planLoop ucd ig (pre @ r # rs) = foldl (planStep ucd ig) (planStep ucd ig (planLoop ucd ig pre) r) rs"
    by (simp add: planLoop_def)
  also have "\<dots> = foldl (planStep ucd ig) (Some r, planDeletionsAsc ucd ig pre) rs"
    using after_prefix[OF pre] by simp
  also have "\<dots> = (Some r, planDeletionsAsc ucd ig pre @ map ident rs)"
    using run_all_deleted[OF sig] by simp
  finally show ?thesis .
qed


text \<open>
  C1. Let a run of at least two consecutive entries with the same signature be maximal:
  the entry before it, if any, and the entry after it, if any, have another signature.
  Then the plan of the whole sequence is the plan of the entries before the run, then
  the identifiers of the second to the last entry of the run (one less than the length
  of the run), then the plan of the entries after it; and after each entry of the run
  the kept reference is the first entry of the run.
\<close>

theorem plan_run:
  assumes len: "2 \<le> length run"
      and sig: "\<forall>e\<in>set run. signature ucd ig e = signature ucd ig (hd run)"
      and pre: "pre = [] \<or> signature ucd ig (last pre) \<noteq> signature ucd ig (hd run)"
      and post: "post = [] \<or> signature ucd ig (hd post) \<noteq> signature ucd ig (hd run)"
  shows "planDeletionsAsc ucd ig (pre @ run @ post) =
           planDeletionsAsc ucd ig pre @ map ident (tl run) @ planDeletionsAsc ucd ig post \<and>
         length (map ident (tl run)) = length run - 1 \<and>
         (\<forall>m. 1 \<le> m \<and> m \<le> length run \<longrightarrow>
              fst (planLoop ucd ig (pre @ take m run)) = Some (hd run))"
proof -
  from len obtain r rs where run: "run = r # rs" by (cases run) auto
  have sig': "\<forall>e\<in>set rs. signature ucd ig e = signature ucd ig r" using sig run by simp
  have pre': "pre = [] \<or> signature ucd ig (last pre) \<noteq> signature ucd ig r" using pre run by simp
  have whole: "planLoop ucd ig (pre @ run) = (Some r, planDeletionsAsc ucd ig pre @ map ident rs)"
    using planLoop_run[OF sig' pre'] run by simp
  have kept: "fst (planLoop ucd ig (pre @ take m run)) = Some (hd run)"
    if m: "1 \<le> m" "m \<le> length run" for m
  proof -
    from m obtain j where j: "m = Suc j" by (cases m) auto
    have "\<forall>e\<in>set (take j rs). signature ucd ig e = signature ucd ig r"
      using sig' by (meson in_set_takeD)
    from planLoop_run[OF this pre'] show ?thesis using run j by simp
  qed
  have "planLoop ucd ig (pre @ run @ post) = foldl (planStep ucd ig) (planLoop ucd ig (pre @ run)) post"
    by (simp add: planLoop_def)
  then have eq: "planLoop ucd ig (pre @ run @ post) =
      foldl (planStep ucd ig) (Some r, planDeletionsAsc ucd ig pre @ map ident rs) post"
    using whole by simp
  have "planDeletionsAsc ucd ig (pre @ run @ post) =
      planDeletionsAsc ucd ig pre @ map ident rs @ planDeletionsAsc ucd ig post"
  proof (cases "post = []")
    case True
    then show ?thesis using whole by (simp add: planDeletionsAsc_def planLoop_def)
  next
    case False
    then have "signature ucd ig r \<noteq> signature ucd ig (hd post)" using post run by auto
    from fresh_start[OF False this] eq
    have "planLoop ucd ig (pre @ run @ post) =
        foldl (planStep ucd ig) (None, planDeletionsAsc ucd ig pre @ map ident rs) post" by simp
    then show ?thesis
      using foldl_planStep_acc[of ucd ig None "planDeletionsAsc ucd ig pre @ map ident rs" post]
      by (simp add: planDeletionsAsc_def planLoop_def)
  qed
  then show ?thesis using run kept by simp
qed


theorem plan_run_witness:
  "signature ucdExcerpt True
     \<lparr>ident = 2, from_id = 7, text_body = Str (lit ''Hi  there''), attachments = None\<rparr> =
   signature ucdExcerpt True
     \<lparr>ident = 3, from_id = 7, text_body = Str (lit '' hi there''), attachments = None\<rparr> \<and>
   signature ucdExcerpt True
     \<lparr>ident = 1, from_id = 7, text_body = Str (lit ''first''), attachments = None\<rparr> \<noteq>
   signature ucdExcerpt True
     \<lparr>ident = 2, from_id = 7, text_body = Str (lit ''Hi  there''), attachments = None\<rparr> \<and>
   signature ucdExcerpt True
     \<lparr>ident = 4, from_id = 8, text_body = Str (lit ''hi there''), attachments = None\<rparr> \<noteq>
   signature ucdExcerpt True
     \<lparr>ident = 2, from_id = 7, text_body = Str (lit ''Hi  there''), attachments = None\<rparr> \<and>
   planDeletionsAsc ucdExcerpt True
     ([\<lparr>ident = 1, from_id = 7, text_body = Str (lit ''first''), attachments = None\<rparr>] @
      [\<lparr>ident = 2, from_id = 7, text_body = Str (lit ''Hi  there''), attachments = None\<rparr>,
       \<lparr>ident = 3, from_id = 7, text_body = Str (lit '' hi there''), attachments = None\<rparr>] @
      [\<lparr>ident = 4, from_id = 8, text_body = Str (lit ''hi there''), attachments = None\<rparr>]) =
   planDeletionsAsc ucdExcerpt True
     [\<lparr>ident = 1, from_id = 7, text_body = Str (lit ''first''), attachments = None\<rparr>] @
   [3] @
   planDeletionsAsc ucdExcerpt True
     [\<lparr>ident = 4, from_id = 8, text_body = Str (lit ''hi there''), attachments = None\<rparr>] \<and>
   fst (planLoop ucdExcerpt True
     ([\<lparr>ident = 1, from_id = 7, text_body = Str (lit ''first''), attachments = None\<rparr>] @
      take 2
        [\<lparr>ident = 2, from_id = 7, text_body = Str (lit ''Hi  there''), attachments = None\<rparr>,
         \<lparr>ident = 3, from_id = 7, text_body = Str (lit '' hi there''), attachments = None\<rparr>])) =
   Some \<lparr>ident = 2, from_id = 7, text_body = Str (lit ''Hi  there''), attachments = None\<rparr>"
proof -
  let ?A = "\<lparr>ident = 1, from_id = 7, text_body = Str (lit ''first''), attachments = None\<rparr>"
  let ?B = "\<lparr>ident = 2, from_id = 7, text_body = Str (lit ''Hi  there''), attachments = None\<rparr>"
  let ?C = "\<lparr>ident = 3, from_id = 7, text_body = Str (lit '' hi there''), attachments = None\<rparr>"
  let ?D = "\<lparr>ident = 4, from_id = 8, text_body = Str (lit ''hi there''), attachments = None\<rparr>"
  have h1: "2 \<le> length [?B, ?C]" by simp
  have bc: "signature ucdExcerpt True ?B = signature ucdExcerpt True ?C" by code_simp
  have ab: "signature ucdExcerpt True ?A \<noteq> signature ucdExcerpt True ?B" by code_simp
  have db: "signature ucdExcerpt True ?D \<noteq> signature ucdExcerpt True ?B" by code_simp
  have h2: "\<forall>e\<in>set [?B, ?C]. signature ucdExcerpt True e = signature ucdExcerpt True (hd [?B, ?C])"
    using bc by simp
  have h3: "[?A] = [] \<or> signature ucdExcerpt True (last [?A]) \<noteq> signature ucdExcerpt True (hd [?B, ?C])"
    using ab by simp
  have h4: "[?D] = [] \<or> signature ucdExcerpt True (hd [?D]) \<noteq> signature ucdExcerpt True (hd [?B, ?C])"
    using db by simp
  note r = plan_run[OF h1 h2 h3 h4]
  from r have p: "planDeletionsAsc ucdExcerpt True ([?A] @ [?B, ?C] @ [?D]) =
      planDeletionsAsc ucdExcerpt True [?A] @ [3] @ planDeletionsAsc ucdExcerpt True [?D]" by simp
  from r have "1 \<le> (2::nat) \<and> 2 \<le> length [?B, ?C] \<longrightarrow>
      fst (planLoop ucdExcerpt True ([?A] @ take 2 [?B, ?C])) = Some (hd [?B, ?C])" by blast
  then have k: "fst (planLoop ucdExcerpt True ([?A] @ take 2 [?B, ?C])) = Some ?B" by simp
  from bc ab db p k show ?thesis by blast
qed

text \<open>
  The identifiers appended are those of entries after the kept one, in their order.
\<close>

lemma subseq_from_kept:
  "subseq (snd (foldl (planStep ucd ig) (Some p, []) es)) (map ident es)"
proof (induction es arbitrary: p)
  case Nil then show ?case by simp
next
  case (Cons e es)
  show ?case
  proof (cases "sameEntry ucd ig p e")
    case True
    then show ?thesis
      using foldl_planStep_acc[of ucd ig "Some p" "[ident e]" es] Cons.IH[of p] by simp
  next
    case False
    then show ?thesis using Cons.IH[of e] by (simp add: list_emb_Cons)
  qed
qed

lemma plan_Cons: "planDeletionsAsc ucd ig (e # es) = snd (foldl (planStep ucd ig) (Some e, []) es)"
  by (simp add: planDeletionsAsc_def planLoop_def)

lemma plan_subseq_tl: "subseq (planDeletionsAsc ucd ig es) (map ident (tl es))"
proof (cases es)
  case Nil then show ?thesis by (simp add: planDeletionsAsc_def planLoop_def)
next
  case (Cons e es')
  then show ?thesis using subseq_from_kept[of ucd ig e es'] by (simp add: plan_Cons)
qed


text \<open>
  C2 (as amended). The plan is a subsequence of the identifiers of the entries in the
  order they were yielded, and even of the identifiers of the entries after the first:
  the first entry yielded is never the one whose identifier is appended. Hence the
  identifier of the first entry is not in the plan when no later entry carries it.
\<close>

theorem plan_subsequence:
  "subseq (planDeletionsAsc ucd ig es) (map ident es) \<and>
   subseq (planDeletionsAsc ucd ig es) (map ident (tl es)) \<and>
   (es \<noteq> [] \<and> ident (hd es) \<notin> ident ` set (tl es) \<longrightarrow>
      ident (hd es) \<notin> set (planDeletionsAsc ucd ig es))"
proof -
  have t: "subseq (planDeletionsAsc ucd ig es) (map ident (tl es))" by (rule plan_subseq_tl)
  have "subseq (map ident (tl es)) (map ident es)"
    by (cases es) (simp_all add: list_emb_Cons)
  with t have w: "subseq (planDeletionsAsc ucd ig es) (map ident es)"
    using subseq_order.order_trans by blast
  have "set (planDeletionsAsc ucd ig es) \<subseteq> set (map ident (tl es))"
  proof
    fix x assume "x \<in> set (planDeletionsAsc ucd ig es)"
    from list_emb_set[OF t this] show "x \<in> set (map ident (tl es))" by blast
  qed
  then have "ident (hd es) \<notin> ident ` set (tl es) \<Longrightarrow> ident (hd es) \<notin> set (planDeletionsAsc ucd ig es)"
    by auto
  with t w show ?thesis by blast
qed


theorem plan_subsequence_witness:
  "planDeletionsAsc ucdExcerpt False
     [\<lparr>ident = 1, from_id = 7, text_body = Str (lit ''hi''), attachments = None\<rparr>,
      \<lparr>ident = 2, from_id = 7, text_body = Str (lit ''HI''), attachments = None\<rparr>,
      \<lparr>ident = 3, from_id = 7, text_body = Str (lit ''bye''), attachments = None\<rparr>] = [2] \<and>
   subseq
     (planDeletionsAsc ucdExcerpt False
        [\<lparr>ident = 1, from_id = 7, text_body = Str (lit ''hi''), attachments = None\<rparr>,
         \<lparr>ident = 2, from_id = 7, text_body = Str (lit ''HI''), attachments = None\<rparr>,
         \<lparr>ident = 3, from_id = 7, text_body = Str (lit ''bye''), attachments = None\<rparr>])
     (map ident
        (tl [\<lparr>ident = 1, from_id = 7, text_body = Str (lit ''hi''), attachments = None\<rparr>,
             \<lparr>ident = 2, from_id = 7, text_body = Str (lit ''HI''), attachments = None\<rparr>,
             \<lparr>ident = 3, from_id = 7, text_body = Str (lit ''bye''), attachments = None\<rparr>])) \<and>
   ident
     (hd [\<lparr>ident = 1, from_id = 7, text_body = Str (lit ''hi''), attachments = None\<rparr>,
          \<lparr>ident = 2, from_id = 7, text_body = Str (lit ''HI''), attachments = None\<rparr>,
          \<lparr>ident = 3, from_id = 7, text_body = Str (lit ''bye''), attachments = None\<rparr>]) \<notin>
   set (planDeletionsAsc ucdExcerpt False
     [\<lparr>ident = 1, from_id = 7, text_body = Str (lit ''hi''), attachments = None\<rparr>,
      \<lparr>ident = 2, from_id = 7, text_body = Str (lit ''HI''), attachments = None\<rparr>,
      \<lparr>ident = 3, from_id = 7, text_body = Str (lit ''bye''), attachments = None\<rparr>])"
proof -
  let ?es = "[\<lparr>ident = 1, from_id = 7, text_body = Str (lit ''hi''), attachments = None\<rparr>,
      \<lparr>ident = 2, from_id = 7, text_body = Str (lit ''HI''), attachments = None\<rparr>,
      \<lparr>ident = 3, from_id = 7, text_body = Str (lit ''bye''), attachments = None\<rparr>]"
  have fresh: "?es \<noteq> [] \<and> ident (hd ?es) \<notin> ident ` set (tl ?es)"
    by simp
  have val: "planDeletionsAsc ucdExcerpt False ?es = [2]" by code_simp
  from plan_subsequence[of ucdExcerpt False ?es] fresh val show ?thesis by blast
qed

text \<open>
  C2 as stated fails when the paginator yields the same entry twice in a row: the second
  copy equals the kept first one, so the identifier of the first yielded entry is
  appended to the plan.
\<close>

theorem plan_first_identifier_counterexample:
  "ident (hd [\<lparr>ident = 1, from_id = 7, text_body = Str (lit ''hi''), attachments = None\<rparr>,
              \<lparr>ident = 1, from_id = 7, text_body = Str (lit ''hi''), attachments = None\<rparr>])
   \<in> set (planDeletionsAsc ucdExcerpt False
            [\<lparr>ident = 1, from_id = 7, text_body = Str (lit ''hi''), attachments = None\<rparr>,
             \<lparr>ident = 1, from_id = 7, text_body = Str (lit ''hi''), attachments = None\<rparr>])"
  by (simp add: planDeletionsAsc_def planLoop_def sameEntry_def)

section \<open>Properties of the Resilient Call Wrapper\<close>

text \<open>
  One turn of the loop, by the outcome of the invocation.
\<close>

lemma withRetriesLoop_fatal:
  assumes "fn calls = Inl e" "\<not> retriable (code e)"
  shows "withRetriesLoop fn m attempt calls =
           (Inl (Error (failureMessage (code e) (message e) attempt)), Suc calls)"
  using assms by (simp add: withRetriesLoop.simps[of fn m attempt calls])

lemma withRetriesLoop_last:
  assumes "fn calls = Inl e" "m \<le> attempt"
  shows "withRetriesLoop fn m attempt calls =
           (Inl (Error (failureMessage (code e) (message e) attempt)), Suc calls)"
  using assms by (simp add: withRetriesLoop.simps[of fn m attempt calls])

lemma withRetriesLoop_retry:
  assumes "fn calls = Inl e" "retriable (code e)" "attempt < m"
  shows "withRetriesLoop fn m attempt calls = withRetriesLoop fn m (Suc attempt) (Suc calls)"
  using assms by (simp add: withRetriesLoop.simps[of fn m attempt calls])

lemma withRetriesLoop_success:
  assumes "fn calls = Inr v"
  shows "withRetriesLoop fn m attempt calls = (Inr v, Suc calls)"
  using assms by (simp add: withRetriesLoop.simps[of fn m attempt calls])

lemma withRetriesLoop_exhaust:
  assumes "\<forall>k. \<exists>e. fn k = Inl e \<and> retriable (code e)" "attempt \<le> m"
  shows "\<exists>e. fn (calls + (m - attempt)) = Inl e \<and>
             withRetriesLoop fn m attempt calls =
               (Inl (Error (failureMessage (code e) (message e) m)), Suc (calls + (m - attempt)))"
  using assms(2)
proof (induction "m - attempt" arbitrary: attempt calls)
  case 0
  then have eq: "attempt = m" by simp
  from assms(1) obtain e where e: "fn calls = Inl e" "retriable (code e)" by blast
  then show ?case using eq withRetriesLoop_last[of fn calls e m m] by simp
next
  case (Suc d)
  then have lt: "attempt < m" and d: "d = m - Suc attempt" and le: "Suc attempt \<le> m" by simp_all
  from assms(1) obtain e where e: "fn calls = Inl e" "retriable (code e)" by blast
  have step: "withRetriesLoop fn m attempt calls = withRetriesLoop fn m (Suc attempt) (Suc calls)"
    using e lt by (rule withRetriesLoop_retry)
  from Suc.hyps(1)[OF d le, of "Suc calls"] obtain e' where e':
    "fn (Suc calls + (m - Suc attempt)) = Inl e'"
    "withRetriesLoop fn m (Suc attempt) (Suc calls) =
       (Inl (Error (failureMessage (code e') (message e') m)), Suc (Suc calls + (m - Suc attempt)))"
    by blast
  have idx: "Suc calls + (m - Suc attempt) = calls + (m - attempt)" using lt by simp
  show ?case using e' step unfolding idx by auto
qed

text \<open>
  C3. An operation of which every invocation fails with a code that is not retriable is
  invoked once, whatever the bound, and the error thrown carries the code, the message
  and attempt 0. An operation of which every invocation fails with a retriable code (6,
  10, or 500 to 599) is invoked \<open>maxRetries + 1\<close> times, and the error thrown carries
  the code and message of the last failure and attempt \<open>maxRetries\<close>. Without a bound in
  the configuration the bound is the default.
\<close>

theorem withRetries_attempts:
  fixes fn :: "nat \<Rightarrow> api_error + 'a"
  shows "((\<forall>k. \<exists>e. fn k = Inl e \<and> \<not> retriable (code e)) \<longrightarrow>
            (\<exists>e. fn 0 = Inl e \<and>
                 withRetries fn (Some maxRetries) =
                   (Inl (Error (failureMessage (code e) (message e) 0)), 1))) \<and>
         ((\<forall>k. \<exists>e. fn k = Inl e \<and> retriable (code e)) \<longrightarrow>
            (\<exists>e. fn maxRetries = Inl e \<and>
                 withRetries fn (Some maxRetries) =
                   (Inl (Error (failureMessage (code e) (message e) maxRetries)), maxRetries + 1))) \<and>
         withRetries fn None = withRetries fn (Some DEFAULTS_maxRetries) \<and>
         (retriable c \<longleftrightarrow> c = Some 6 \<or> c = Some 10 \<or> (\<exists>n. c = Some n \<and> 500 \<le> n \<and> n < 600))"
proof -
  have fatal: "\<exists>e. fn 0 = Inl e \<and>
      withRetries fn (Some maxRetries) = (Inl (Error (failureMessage (code e) (message e) 0)), 1)"
    if "\<forall>k. \<exists>e. fn k = Inl e \<and> \<not> retriable (code e)"
  proof -
    from that obtain e where e: "fn 0 = Inl e" "\<not> retriable (code e)" by blast
    from withRetriesLoop_fatal[of fn 0 e maxRetries 0] e show ?thesis
      by (simp add: withRetries_def)
  qed
  have retry: "\<exists>e. fn maxRetries = Inl e \<and>
      withRetries fn (Some maxRetries) =
        (Inl (Error (failureMessage (code e) (message e) maxRetries)), maxRetries + 1)"
    if "\<forall>k. \<exists>e. fn k = Inl e \<and> retriable (code e)"
    using withRetriesLoop_exhaust[OF that, of 0 maxRetries 0] by (simp add: withRetries_def)
  have dflt: "withRetries fn None = withRetries fn (Some DEFAULTS_maxRetries)"
    by (simp add: withRetries_def)
  have cls: "retriable c \<longleftrightarrow> c = Some 6 \<or> c = Some 10 \<or> (\<exists>n. c = Some n \<and> 500 \<le> n \<and> n < 600)"
    by (cases c) (auto simp: retriable_def)
  from fatal retry dflt cls show ?thesis by blast
qed


theorem withRetries_attempts_witness:
  "\<not> retriable (Some 15) \<and>
   withRetries (\<lambda>k. Inl \<lparr>code = Some 15, message = lit ''Access denied''\<rparr> :: api_error + unit)
     (Some 6) =
     (Inl (Error (lit ''VK API failed: code=15, msg=Access denied, attempt=0'')), 1) \<and>
   retriable (Some 6) \<and>
   withRetries (\<lambda>k. Inl \<lparr>code = Some 6, message = lit ''Too many requests''\<rparr> :: api_error + unit)
     (Some 2) =
     (Inl (Error (lit ''VK API failed: code=6, msg=Too many requests, attempt=2'')), 3)"
proof -
  let ?f = "\<lambda>k::nat. Inl \<lparr>code = Some 15, message = lit ''Access denied''\<rparr> :: api_error + unit"
  let ?r = "\<lambda>k::nat. Inl \<lparr>code = Some 6, message = lit ''Too many requests''\<rparr> :: api_error + unit"
  have nf: "\<not> retriable (Some 15)" and rr: "retriable (Some 6)" by (simp_all add: retriable_def)
  have hf: "\<forall>k. \<exists>e. ?f k = Inl e \<and> \<not> retriable (code e)" using nf by simp
  have hr: "\<forall>k. \<exists>e. ?r k = Inl e \<and> retriable (code e)" using rr by simp
  have mf: "failureMessage (Some 15) (lit ''Access denied'') 0 =
      lit ''VK API failed: code=15, msg=Access denied, attempt=0''" by code_simp
  have mr: "failureMessage (Some 6) (lit ''Too many requests'') 2 =
      lit ''VK API failed: code=6, msg=Too many requests, attempt=2''" by code_simp
  from withRetries_attempts[of ?f 6] hf
  have "\<exists>e. ?f 0 = Inl e \<and>
      withRetries ?f (Some 6) = (Inl (Error (failureMessage (code e) (message e) 0)), 1)"
    by blast
  then have a: "withRetries ?f (Some 6) =
      (Inl (Error (lit ''VK API failed: code=15, msg=Access denied, attempt=0'')), 1)"
    using mf by auto
  from withRetries_attempts[of ?r 2] hr
  have "\<exists>e. ?r 2 = Inl e \<and>
      withRetries ?r (Some 2) = (Inl (Error (failureMessage (code e) (message e) 2)), 2 + 1)"
    by blast
  then have b: "withRetries ?r (Some 2) =
      (Inl (Error (lit ''VK API failed: code=6, msg=Too many requests, attempt=2'')), 3)"
    using mr by auto
  from nf a rr b show ?thesis by blast
qed

section \<open>Properties of the dry run\<close>

text \<open>
  C9. In dry-run mode \<^verbatim>\<open>main\<close> ends the process with exit code 0 before
  \<^verbatim>\<open>deleteBatch\<close>: no \<^verbatim>\<open>deleteComment\<close> request is sent. The console shows the
  size of the plan and, when the plan is not empty, its first \<open>planPreview\<close> and its
  last \<open>planPreview\<close> identifiers (all of them when the plan is shorter).
\<close>

theorem main_dry_run:
  assumes "opt_dryRun opts"
      and "plan = planDeletionsAsc ucd (opt_ignoreAtts opts)
                    (thread (if opt_full opts then 0 else totalN - (opt_tail opts + 1)))"
  shows "\<exists>r. main ucd opts totalN thread remote sched = Some r \<and>
             delete_calls r = 0 \<and>
             exit_code r = Some 0 \<and>
             out r =
               (if opt_full opts then [ScanFull]
                else [ScanTail totalN (totalN - (opt_tail opts + 1))]) @
               [DryRun (length plan)] @
               (if plan = [] then []
                else if opt_planPreview opts = 0 then [First 0 []]
                else [First (min (opt_planPreview opts) (length plan))
                        (take (opt_planPreview opts) plan),
                      Last (min (opt_planPreview opts) (length plan))
                        (drop (length plan - opt_planPreview opts) plan)]) @
               [DoneDryRun]"
  using assms by (auto simp: main_def Let_def min_def)


theorem main_dry_run_witness:
  "main ucdExcerpt \<lparr>opt_full = True, opt_tail = 300, opt_ignoreAtts = False, opt_dryRun = True,
         opt_concurrency = 2, opt_maxRetries = 6, opt_planPreview = DEFAULTS_planPreview\<rparr>
     0
     (\<lambda>off. map (\<lambda>i. \<lparr>ident = int i, from_id = 7, text_body = Undefined,
                         attachments = None\<rparr>) [0..<51])
     (\<lambda>idx cid k. Inr ())
     [] =
   Some \<lparr>out = [ScanFull, DryRun 50, First 20 (map int [1..<21]), Last 20 (map int [31..<51]),
                DoneDryRun],
         exit_code = Some 0, delete_calls = 0\<rparr>"
proof -
  let ?opts = "\<lparr>opt_full = True, opt_tail = 300, opt_ignoreAtts = False, opt_dryRun = True,
         opt_concurrency = 2, opt_maxRetries = 6, opt_planPreview = DEFAULTS_planPreview\<rparr>"
  let ?thread = "\<lambda>off::nat. map (\<lambda>i. \<lparr>ident = int i, from_id = 7, text_body = Undefined,
                         attachments = None\<rparr>) [0..<51]"
  let ?plan = "map int [1..<51]"
  have dry: "opt_dryRun ?opts" by simp
  have plan: "?plan = planDeletionsAsc ucdExcerpt (opt_ignoreAtts ?opts)
      (?thread (if opt_full ?opts then 0 else 0 - (opt_tail ?opts + 1)))"
    by code_simp
  have len: "length ?plan = 50" by simp
  have hd20: "take 20 ?plan = map int [1..<21]" by code_simp
  have tl20: "drop (50 - 20) ?plan = map int [31..<51]" by code_simp
  have ne: "?plan \<noteq> []" by code_simp
  from main_dry_run[OF dry plan, where totalN = 0 and remote = "\<lambda>idx cid k. Inr ()"
      and sched = "[]"]
  obtain r where r: "main ucdExcerpt ?opts 0 ?thread (\<lambda>idx cid k. Inr ()) [] = Some r"
    and calls: "delete_calls r = 0" and ex: "exit_code r = Some 0"
    and o: "out r = [ScanFull] @ [DryRun (length ?plan)] @
         [First (min 20 (length ?plan)) (take 20 ?plan),
          Last (min 20 (length ?plan)) (drop (length ?plan - 20) ?plan)] @ [DoneDryRun]"
    using ne by (auto simp: DEFAULTS_planPreview_def)
  have "out r = [ScanFull, DryRun 50, First 20 (map int [1..<21]), Last 20 (map int [31..<51]),
                 DoneDryRun]"
    unfolding o len hd20 tl20 by simp
  with calls ex have "r = \<lparr>out = [ScanFull, DryRun 50, First 20 (map int [1..<21]),
                                   Last 20 (map int [31..<51]), DoneDryRun],
         exit_code = Some 0, delete_calls = 0\<rparr>"
    by (cases r) simp
  with r show ?thesis by simp
qed

section \<open>Properties of the Bounded Executor\<close>

text \<open>
  The effect of \<^verbatim>\<open>resolve\<close>, \<^verbatim>\<open>reject\<close>, the launching loop and \<^verbatim>\<open>next\<close> on the
  fields of the state.
\<close>

lemma settle_fields [simp]:
  "cursor (settle v st) = cursor st"
  "active (settle v st) = active st"
  "resolved (settle v st) = resolved st"
  "results (settle v st) = results st"
  "pending (settle v st) = pending st"
  "launched (settle v st) = launched st"
  "settled (settle v st) = settled st"
  "shared (settle v st) = shared st"
  by (simp_all add: settle_def split: option.splits)

lemma settle_promise:
  "promise (settle v st) = (case promise st of None \<Rightarrow> Some v | Some w \<Rightarrow> Some w)"
  by (simp add: settle_def split: option.splits)

lemma launch_stop: "\<not> (active st < c \<and> cursor st < n) \<Longrightarrow> launch n c st = st"
  by (subst launch.simps) auto

lemma launch_go:
  "active st < c \<Longrightarrow> cursor st < n \<Longrightarrow>
   launch n c st =
     launch n c (st\<lparr>cursor := Suc (cursor st), active := Suc (active st),
                    pending := pending st @ [cursor st], launched := launched st @ [cursor st]\<rparr>)"
  by (subst launch.simps) auto

lemma launch_eq:
  "launch n c st =
     st\<lparr>cursor := cursor st + min (c - active st) (n - cursor st),
        active := active st + min (c - active st) (n - cursor st),
        pending := pending st @ [cursor st ..< cursor st + min (c - active st) (n - cursor st)],
        launched := launched st @ [cursor st ..< cursor st + min (c - active st) (n - cursor st)]\<rparr>"
proof (induction n c st rule: launch.induct)
  case (1 n c st)
  show ?case
  proof (cases "active st < c \<and> cursor st < n")
    case False
    then have "min (c - active st) (n - cursor st) = 0" by auto
    then show ?thesis using launch_stop[OF False] by simp
  next
    case True
    then have k: "min (c - active st) (n - cursor st) =
        Suc (min (c - Suc (active st)) (n - Suc (cursor st)))" by auto
    from True have go: "launch n c st =
     launch n c (st\<lparr>cursor := Suc (cursor st), active := Suc (active st),
                    pending := pending st @ [cursor st], launched := launched st @ [cursor st]\<rparr>)"
      by (simp add: launch_go)
    show ?thesis
      unfolding go 1[OF True] k by (simp add: upt_conv_Cons del: upt_Suc)
  qed
qed

lemma pnext_fields [simp]:
  "settled (pnext n c st) = settled st"
  "shared (pnext n c st) = shared st"
  "results (pnext n c st) = results st"
  "resolved (pnext n c st) = resolved st"
  by (simp_all add: pnext_def launch_eq)

lemma complete_settled:
  "settled (complete items mapper c idx st) =
     settled st @ [(idx, fst (mapper (items ! idx) idx (shared st)))]"
  by (simp add: complete_def Let_def split: prod.splits sum.splits)

lemma complete_shared:
  "shared (complete items mapper c idx st) = snd (mapper (items ! idx) idx (shared st))"
  by (simp add: complete_def Let_def split: prod.splits sum.splits)

lemma complete_resolved:
  "resolved (complete items mapper c idx st) = Suc (resolved st)"
  by (simp add: complete_def Let_def split: prod.splits sum.splits)

lemma complete_results:
  "results (complete items mapper c idx st) =
     (case fst (mapper (items ! idx) idx (shared st)) of
        Inr v \<Rightarrow> (results st)[idx := Some v] | Inl e \<Rightarrow> results st)"
  by (simp add: complete_def Let_def split: prod.splits sum.splits)

text \<open>
  The invariant holds initially and is kept by every settlement; under it the run makes
  progress until every item has settled.
\<close>

lemma pinv_pnext:
  assumes "cursor st \<le> n" "active st = length (pending st)" "active st \<le> c"
    "launched st = [0..<cursor st]"
    "mset (map fst (settled st)) + mset (pending st) = mset [0..<cursor st]"
    "resolved st = length (settled st)" "length (results st) = n"
  shows "pinv n c (pnext n c st)"
proof (cases "resolved st = n")
  case True
  from assms(5) have "size (mset (map fst (settled st)) + mset (pending st)) = size (mset [0..<cursor st])"
    by simp
  then have "length (settled st) + length (pending st) = cursor st" by simp
  with True assms(1,6) have "length (pending st) = 0 \<and> cursor st = n" by linarith
  then have "cursor st = n" "pending st = []" by simp_all
  with True assms show ?thesis by (simp add: pinv_def pnext_def)
next
  case False
  let ?k = "min (c - active st) (n - cursor st)"
  have "[0..<cursor st] @ [cursor st..<cursor st + ?k] = [0..<cursor st + ?k]"
    by (metis le_add1 upt_add_eq_append zero_le)
  moreover have "mset [0..<cursor st + ?k] = mset [0..<cursor st] + mset [cursor st..<cursor st + ?k]"
    by (metis calculation mset_append)
  ultimately show ?thesis using False assms
    by (auto simp: pinv_def pnext_def launch_eq)
qed

lemma pinv_complete:
  assumes inv: "pinv n c st" and idx: "idx \<in> set (pending st)" and n: "length items = n"
  shows "pinv n c (complete items mapper c idx st)"
proof -
  obtain r sh where m: "mapper (items ! idx) idx (shared st) = (r, sh)" by (cases "mapper (items ! idx) idx (shared st)")
  define st1 where "st1 = st\<lparr>shared := sh, settled := settled st @ [(idx, r)]\<rparr>"
  define st2 where "st2 = (case r of
                   Inr v \<Rightarrow> st1\<lparr>results := (results st1)[idx := Some v]\<rparr>
                 | Inl e \<Rightarrow> settle (Inl e) st1)"
  define st3 where "st3 = st2\<lparr>active := active st2 - 1, resolved := Suc (resolved st2),
                    pending := remove1 idx (pending st2)\<rparr>"
  have c: "complete items mapper c idx st = pnext n c st3"
    by (cases r) (simp_all add: complete_def m st1_def st2_def st3_def n Let_def)
  have f2: "cursor st2 = cursor st" "active st2 = active st" "resolved st2 = resolved st"
    "pending st2 = pending st" "launched st2 = launched st" "settled st2 = settled st @ [(idx, r)]"
    "length (results st2) = length (results st)"
    by (simp_all add: st2_def st1_def split: sum.splits)
  from idx have ms: "mset (remove1 idx (pending st)) + {#idx#} = mset (pending st)" by simp
  have "mset (map fst (settled st @ [(idx, r)])) + mset (remove1 idx (pending st)) =
        mset (map fst (settled st)) + (mset (remove1 idx (pending st)) + {#idx#})"
    by simp
  also have "\<dots> = mset [0..<cursor st]" unfolding ms using inv by (simp add: pinv_def)
  finally have mm: "mset (map fst (settled st @ [(idx, r)])) + mset (remove1 idx (pending st)) =
        mset [0..<cursor st]" .
  from idx have pos: "0 < length (pending st)" by (cases "pending st") auto
  have "pinv n c (pnext n c st3)"
  proof (rule pinv_pnext)
    show "cursor st3 \<le> n" using inv by (simp add: st3_def f2 pinv_def)
    show "active st3 = length (pending st3)"
      using inv idx by (simp add: st3_def f2 pinv_def length_remove1)
    show "active st3 \<le> c" using inv by (auto simp: st3_def f2 pinv_def)
    show "launched st3 = [0..<cursor st3]" using inv by (simp add: st3_def f2 pinv_def)
    show "mset (map fst (settled st3)) + mset (pending st3) = mset [0..<cursor st3]"
      using mm by (simp add: st3_def f2)
    show "resolved st3 = length (settled st3)" using inv by (simp add: st3_def f2 pinv_def)
    show "length (results st3) = n" using inv by (simp add: st3_def f2 pinv_def)
  qed
  with c show ?thesis by simp
qed

lemma runSchedule_invariant:
  assumes "P st" and "\<And>s idx. P s \<Longrightarrow> idx \<in> set (pending s) \<Longrightarrow> P (complete items mapper c idx s)"
  shows "P (runSchedule items mapper c sched st)"
  using assms(1)
proof (induction sched arbitrary: st)
  case Nil then show ?case by simp
next
  case (Cons k ks)
  show ?case
  proof (cases "pending st = []")
    case True then show ?thesis using Cons.prems by simp
  next
    case False
    then have "pending st ! (k mod length (pending st)) \<in> set (pending st)" by simp
    from assms(2)[OF Cons.prems this] Cons.IH show ?thesis using False by simp
  qed
qed

lemma pinv_initial: "pinv n c (pnext n c (initial n sh))"
  by (rule pinv_pnext) (simp_all add: initial_def)


lemma pinv_done:
  assumes "pinv n c st" "resolved st = n"
  shows "pending st = []" "cursor st = n" "mset (map fst (settled st)) = mset [0..<n]"
proof -
  from assms(1) have "size (mset (map fst (settled st)) + mset (pending st)) = size (mset [0..<cursor st])"
    unfolding pinv_def by presburger
  then have "length (settled st) + length (pending st) = cursor st" by simp
  with assms have "length (pending st) = 0 \<and> cursor st = n" unfolding pinv_def by linarith
  then show p: "pending st = []" and c: "cursor st = n" by simp_all
  from assms(1) p c show "mset (map fst (settled st)) = mset [0..<n]" unfolding pinv_def by simp
qed

lemma pinv_progress:
  assumes "pinv n c st" "1 \<le> c" "resolved st < n"
  shows "pending st \<noteq> []"
proof
  assume e: "pending st = []"
  with assms have "cursor st = n" unfolding pinv_def by auto
  moreover from assms(1) e have "mset (map fst (settled st)) = mset [0..<cursor st]"
    unfolding pinv_def by simp
  then have "size (mset (map fst (settled st))) = size (mset [0..<cursor st])" by presburger
  then have "length (settled st) = cursor st" by simp
  ultimately show False using assms unfolding pinv_def by simp
qed

lemma runSchedule_resolved:
  assumes "pinv n c st" "1 \<le> c" "length items = n" "n \<le> resolved st + length sched"
  shows "resolved (runSchedule items mapper c sched st) = n"
  using assms(1,4)
proof (induction sched arbitrary: st)
  case Nil
  moreover from Nil(1) have "resolved st \<le> n"
    using mset_eq_length[of "map fst (settled st) @ pending st" "[0..<cursor st]"]
    by (simp add: pinv_def)
  ultimately show ?case by simp
next
  case (Cons k ks)
  show ?case
  proof (cases "pending st = []")
    case True
    with pinv_progress[OF Cons.prems(1) assms(2)] have "\<not> resolved st < n" by blast
    moreover from Cons.prems(1) have "resolved st \<le> n"
      using mset_eq_length[of "map fst (settled st) @ pending st" "[0..<cursor st]"]
      by (simp add: pinv_def)
    ultimately show ?thesis using True by simp
  next
    case False
    let ?idx = "pending st ! (k mod length (pending st))"
    from False have mem: "?idx \<in> set (pending st)" by simp
    have "pinv n c (complete items mapper c ?idx st)"
      using pinv_complete[OF Cons.prems(1) mem assms(3)] .
    moreover have "n \<le> resolved (complete items mapper c ?idx st) + length ks"
      using Cons.prems(2) by (simp add: complete_resolved)
    ultimately show ?thesis using Cons.IH False by simp
  qed
qed

text \<open>
  The promise and the results after a settlement.
\<close>

lemma failures_snoc:
  "failures (log @ [(i, r)]) = failures log @ (case r of Inl e \<Rightarrow> [e] | Inr v \<Rightarrow> [])"
  by (simp add: failures_def)

lemma pnext_promise:
  "promise (pnext n c st) =
     (if resolved st = n then (case promise st of None \<Rightarrow> Some (Inr (results st)) | Some w \<Rightarrow> Some w)
      else promise st)"
  by (simp add: pnext_def launch_eq settle_promise)

lemma complete_promise:
  "promise (complete items mapper c idx st) =
     (let r = fst (mapper (items ! idx) idx (shared st));
          p = (case r of Inl e \<Rightarrow> (case promise st of None \<Rightarrow> Some (Inl e) | Some w \<Rightarrow> Some w)
               | Inr v \<Rightarrow> promise st)
      in if Suc (resolved st) = length items
         then (case p of None \<Rightarrow> Some (Inr (case r of Inr v \<Rightarrow> (results st)[idx := Some v]
                                                | Inl e \<Rightarrow> results st))
               | Some w \<Rightarrow> Some w)
         else p)"
  by (cases "mapper (items ! idx) idx (shared st)"; cases "fst (mapper (items ! idx) idx (shared st))")
     (simp_all add: complete_def Let_def pnext_promise settle_promise split: option.splits)

lemma pinv_pending_fresh:
  assumes "pinv n c st" "idx \<in> set (pending st)"
  shows "idx \<notin> fst ` set (settled st)" "idx < n" "length (settled st) < n"
proof -
  from assms(1) have ms: "mset (map fst (settled st) @ pending st) = mset [0..<cursor st]"
    and cur: "cursor st \<le> n" by (simp_all add: pinv_def)
  from ms have d: "distinct (map fst (settled st) @ pending st)"
    by (metis distinct_upt mset_eq_imp_distinct_iff)
  with assms(2) show "idx \<notin> fst ` set (settled st)" by auto
  from ms have s: "set (map fst (settled st) @ pending st) = set [0..<cursor st]"
    by (rule mset_eq_setD)
  from assms(2) have "idx \<in> set (map fst (settled st) @ pending st)" by simp
  then have "idx \<in> set [0..<cursor st]" unfolding s .
  with cur show "idx < n" by simp
  from mset_eq_length[OF ms] have "length (settled st) + length (pending st) = cursor st" by simp
  moreover from assms(2) have "0 < length (pending st)" by (cases "pending st") auto
  ultimately show "length (settled st) < n" using cur by linarith
qed

lemma pprom_complete:
  assumes inv: "pinv n c st" and pp: "pprom n st" and idx: "idx \<in> set (pending st)"
    and n: "length items = n"
  shows "pprom n (complete items mapper c idx st)"
proof -
  note fresh = pinv_pending_fresh[OF inv idx]
  let ?r = "fst (mapper (items ! idx) idx (shared st))"
  from inv have res: "resolved st = length (settled st)" and lr: "length (results st) = n"
    by (simp_all add: pinv_def)
  from fresh(1) have mo: "map_of (settled st) idx = None"
    by (simp add: map_of_eq_None_iff)
  have prom: "promise st = (case failures (settled st) of e # _ \<Rightarrow> Some (Inl e) | [] \<Rightarrow> None)"
    using pp fresh(3) by (simp add: pprom_def split: list.splits)
  have slots: "\<forall>i<n. results st ! i =
        (case map_of (settled st) i of Some (Inr v) \<Rightarrow> Some v | Some (Inl e) \<Rightarrow> None | None \<Rightarrow> None)"
    using pp by (simp add: pprom_def)
  show ?thesis
  proof (cases ?r)
    case (Inl e)
    have a: "promise (complete items mapper c idx st) =
       (case failures (settled st @ [(idx, ?r)]) of e # _ \<Rightarrow> Some (Inl e)
        | [] \<Rightarrow> if length (settled st @ [(idx, ?r)]) = n
                 then Some (Inr (results (complete items mapper c idx st))) else None)"
      using Inl prom n res
      by (simp add: complete_promise complete_results failures_snoc split: list.splits)
    have b: "\<forall>i<n. results (complete items mapper c idx st) ! i =
        (case map_of (settled st @ [(idx, ?r)]) i of Some (Inr v) \<Rightarrow> Some v
         | Some (Inl e) \<Rightarrow> None | None \<Rightarrow> None)"
      using Inl slots mo
      by (auto simp: complete_results map_add_def split: option.splits sum.splits)
    from a b show ?thesis by (simp add: pprom_def complete_settled)
  next
    case (Inr v)
    have a: "promise (complete items mapper c idx st) =
       (case failures (settled st @ [(idx, ?r)]) of e # _ \<Rightarrow> Some (Inl e)
        | [] \<Rightarrow> if length (settled st @ [(idx, ?r)]) = n
                 then Some (Inr (results (complete items mapper c idx st))) else None)"
      using Inr prom n res
      by (simp add: complete_promise complete_results failures_snoc split: list.splits)
    have b: "\<forall>i<n. results (complete items mapper c idx st) ! i =
        (case map_of (settled st @ [(idx, ?r)]) i of Some (Inr v) \<Rightarrow> Some v
         | Some (Inl e) \<Rightarrow> None | None \<Rightarrow> None)"
      using Inr slots mo lr fresh(2)
      by (auto simp: complete_results map_add_def nth_list_update split: option.splits sum.splits)
    from a b show ?thesis by (simp add: pprom_def complete_settled)
  qed
qed

lemma pprom_initial: "pprom n (pnext n c (initial n sh))"
  by (simp add: pprom_def pnext_promise initial_def failures_def)







section \<open>Properties of the Deletion Orchestrator\<close>

text \<open>
  The effect of the mapper of \<^verbatim>\<open>deleteBatch\<close> on the shared state, by the outcome of
  \<^verbatim>\<open>withRetries\<close>.
\<close>

lemma deleteWorker_success:
  assumes "withRetries (remote idx cid) (Some m) = (Inr (), k)"
  shows "fst (deleteWorker m remote t cid idx bs) = Inr () \<and>
         ok (snd (deleteWorker m remote t cid idx bs)) = Suc (ok bs) \<and>
         processed (snd (deleteWorker m remote t cid idx bs)) = Suc (processed bs) \<and>
         filter isDeleteFailed (console (snd (deleteWorker m remote t cid idx bs))) =
           filter isDeleteFailed (console bs)"
  using assms by (simp add: deleteWorker_def Let_def)

lemma deleteWorker_failure:
  assumes "withRetries (remote idx cid) (Some m) = (Inl (Error msg), k)"
  shows "fst (deleteWorker m remote t cid idx bs) = Inr () \<and>
         ok (snd (deleteWorker m remote t cid idx bs)) = ok bs \<and>
         processed (snd (deleteWorker m remote t cid idx bs)) = Suc (processed bs) \<and>
         filter isDeleteFailed (console (snd (deleteWorker m remote t cid idx bs))) =
           filter isDeleteFailed (console bs) @ [DeleteFailed cid None msg]"
  using assms by (simp add: deleteWorker_def Let_def)

lemma length_filter_neq_upt: "j < n \<Longrightarrow> length (filter (\<lambda>i. i \<noteq> j) [0..<n]) = n - 1"
proof (induction n)
  case 0 then show ?case by simp
next
  case (Suc n)
  show ?case
  proof (cases "j = n")
    case True
    then have "filter (\<lambda>i. i \<noteq> j) [0..<n] = [0..<n]" by (auto intro: filter_True)
    with True show ?thesis by simp
  next
    case False
    with Suc have "length (filter (\<lambda>i. i \<noteq> j) [0..<n]) = n - 1" "0 < n" by auto
    with False show ?thesis by simp
  qed
qed

lemma binv_complete:
  assumes inv: "pinv n c st" and b: "binv j (DeleteFailed (ids ! j) None msg) st"
    and idx: "idx \<in> set (pending st)" and n: "length ids = n"
    and fatal: "withRetries (remote j (ids ! j)) (Some m) = (Inl (Error msg), kj)"
    and good: "\<forall>i<n. i \<noteq> j \<longrightarrow> (\<exists>k. withRetries (remote i (ids ! i)) (Some m) = (Inr (), k))"
  shows "binv j (DeleteFailed (ids ! j) None msg) (complete ids (deleteWorker m remote t) c idx st)"
proof -
  note fresh = pinv_pending_fresh[OF inv idx]
  show ?thesis
  proof (cases "idx = j")
    case True
    from deleteWorker_failure[where remote = remote and idx = j and cid = "ids ! j" and m = m
        and msg = msg and k = kj and t = t and bs = "shared st", OF fatal] b fresh(1) True
    show ?thesis
      by (simp add: binv_def complete_settled complete_shared failures_snoc)
  next
    case False
    with good fresh(2) obtain k where
      "withRetries (remote idx (ids ! idx)) (Some m) = (Inr (), k)" by blast
    from deleteWorker_success[where remote = remote and idx = idx and cid = "ids ! idx"
        and m = m and k = k and t = t and bs = "shared st", OF this] b False
    show ?thesis
      by (auto simp: binv_def complete_settled complete_shared failures_snoc)
  qed
qed

lemma binv_initial: "binv j line (pnext n c (initial n \<lparr>ok = 0, processed = 0, console = [], api_calls = 0\<rparr>))"
  by (simp add: binv_def initial_def failures_def)

text \<open>
  C6. Let the deletion at one plan position \<open>j\<close> fail on every request with a code that
  is not retriable, and let the deletion at every other position succeed within the
  retry bound. Then, once all mapper promises have settled, \<^verbatim>\<open>deleteBatch\<close> returns
  the number of identifiers minus one, every item has been processed, and the console
  holds exactly one line reporting a failed deletion, which names the identifier at
  position \<open>j\<close>.
\<close>

theorem deleteBatch_one_fatal:
  assumes j: "j < length ids"
      and fatal: "\<forall>k. \<exists>e. remote j (ids ! j) k = Inl e \<and> \<not> retriable (code e)"
      and good: "\<forall>i<length ids. i \<noteq> j \<longrightarrow>
                   (\<exists>k. withRetries (remote i (ids ! i)) (Some maxRetries) = (Inr (), k))"
      and enough: "length ids \<le> length sched"
  shows "\<exists>bs e. remote j (ids ! j) 0 = Inl e \<and>
           deleteBatch ids concurrency maxRetries remote sched = Some (Inr (length ids - 1), bs) \<and>
           processed bs = length ids \<and>
           filter isDeleteFailed (console bs) =
             [DeleteFailed (ids ! j) None (failureMessage (code e) (message e) 0)]"
proof -
  let ?n = "length ids" and ?c = "max 1 concurrency"
  let ?w = "deleteWorker maxRetries remote (length ids)"
  let ?st = "pMap ids ?w concurrency sched \<lparr>ok = 0, processed = 0, console = [], api_calls = 0\<rparr>"
  from fatal obtain e where e: "remote j (ids ! j) 0 = Inl e" "\<not> retriable (code e)" by blast
  let ?msg = "failureMessage (code e) (message e) 0"
  let ?line = "DeleteFailed (ids ! j) None ?msg"
  have wj: "withRetries (remote j (ids ! j)) (Some maxRetries) = (Inl (Error ?msg), Suc 0)"
    using withRetriesLoop_fatal[of "remote j (ids ! j)" 0 e maxRetries 0] e
    by (simp add: withRetries_def)
  have both: "pinv ?n ?c ?st \<and> pprom ?n ?st \<and> binv j ?line ?st"
    unfolding pMap_def Let_def
  proof (rule runSchedule_invariant[where P = "\<lambda>s. pinv ?n ?c s \<and> pprom ?n s \<and> binv j ?line s"])
    show "pinv ?n ?c (pnext ?n ?c (initial ?n \<lparr>ok = 0, processed = 0, console = [], api_calls = 0\<rparr>)) \<and>
          pprom ?n (pnext ?n ?c (initial ?n \<lparr>ok = 0, processed = 0, console = [], api_calls = 0\<rparr>)) \<and>
          binv j ?line (pnext ?n ?c (initial ?n \<lparr>ok = 0, processed = 0, console = [], api_calls = 0\<rparr>))"
      by (simp add: pinv_initial pprom_initial binv_initial)
  next
    fix s :: "(unit, js_error, batch_state) pmap_state" and idx
    assume a: "pinv ?n ?c s \<and> pprom ?n s \<and> binv j ?line s" and idx: "idx \<in> set (pending s)"
    from a have i: "pinv ?n ?c s" and p: "pprom ?n s" and b: "binv j ?line s" by simp_all
    show "pinv ?n ?c (complete ids ?w ?c idx s) \<and> pprom ?n (complete ids ?w ?c idx s) \<and>
          binv j ?line (complete ids ?w ?c idx s)"
      using pinv_complete[OF i idx refl] pprom_complete[OF i p idx refl]
        binv_complete[where remote = remote and ids = ids and m = maxRetries and j = j
          and t = "length ids", OF i b idx refl wj good] by simp
  qed
  then have inv: "pinv ?n ?c ?st" and pp: "pprom ?n ?st" and bi: "binv j ?line ?st" by simp_all
  have res: "resolved ?st = ?n"
    unfolding pMap_def Let_def
    by (rule runSchedule_resolved[OF pinv_initial _ refl]) (use enough in simp_all)
  note fin = pinv_done[OF inv res]
  from inv res have len: "length (settled ?st) = ?n" by (simp add: pinv_def)
  from fin(3) have "mset (filter (\<lambda>i. i \<noteq> j) (map fst (settled ?st))) =
      mset (filter (\<lambda>i. i \<noteq> j) [0..<?n])" by (metis mset_filter)
  then have "length (filter (\<lambda>i. i \<noteq> j) (map fst (settled ?st))) =
      length (filter (\<lambda>i. i \<noteq> j) [0..<?n])" by (rule mset_eq_length)
  with length_filter_neq_upt[OF j] bi have ok: "ok (shared ?st) = ?n - 1" by (simp add: binv_def)
  from bi len have proc: "processed (shared ?st) = ?n" by (simp add: binv_def)
  from fin(3) have "set (map fst (settled ?st)) = set [0..<?n]" by (rule mset_eq_setD)
  with j have "j \<in> fst ` set (settled ?st)" by simp
  with bi have lines: "filter isDeleteFailed (console (shared ?st)) = [?line]"
    by (simp add: binv_def)
  from pp bi len have "promise ?st = Some (Inr (results ?st))" by (simp add: pprom_def binv_def)
  then have "deleteBatch ids concurrency maxRetries remote sched = Some (Inr (?n - 1), shared ?st)"
    using ok by (simp add: deleteBatch_def Let_def)
  with e(1) proc lines show ?thesis by blast
qed

theorem deleteBatch_one_fatal_witness:
  "\<exists>bs. deleteBatch [101, 102, 103, 104, 105, 106, 107, 108, 109, 110] 2 6
          (\<lambda>idx cid k. if idx = 4 then Inl \<lparr>code = Some 15, message = lit ''Access denied''\<rparr>
                        else Inr ())
          [0, 0, 0, 0, 0, 0, 0, 0, 0, 0] = Some (Inr 9, bs) \<and>
        processed bs = 10 \<and>
        filter isDeleteFailed (console bs) =
          [DeleteFailed 105 None (lit ''VK API failed: code=15, msg=Access denied, attempt=0'')]"
proof -
  let ?ids = "[101, 102, 103, 104, 105, 106, 107, 108, 109, 110] :: int list"
  let ?remote = "\<lambda>(idx::nat) (cid::int) (k::nat).
      if idx = 4 then Inl \<lparr>code = Some 15, message = lit ''Access denied''\<rparr> else Inr ()"
  have j: "4 < length ?ids" by simp
  have fatal: "\<forall>k. \<exists>e. ?remote 4 (?ids ! 4) k = Inl e \<and> \<not> retriable (code e)"
    by (simp add: retriable_def)
  have one: "withRetries (\<lambda>k. Inr () :: api_error + unit) (Some 6) = (Inr (), 1)"
    by (simp add: withRetries_def withRetriesLoop_success)
  have good: "\<forall>i<length ?ids. i \<noteq> 4 \<longrightarrow>
      (\<exists>k. withRetries (?remote i (?ids ! i)) (Some 6) = (Inr (), k))"
    using one by auto
  have enough: "length ?ids \<le> length [0, 0, 0, 0, 0, 0, 0, 0, 0, 0 :: nat]" by simp
  have msg: "failureMessage (Some 15) (lit ''Access denied'') 0 =
      lit ''VK API failed: code=15, msg=Access denied, attempt=0''" by code_simp
  from deleteBatch_one_fatal[where remote = ?remote and ids = ?ids and j = 4 and maxRetries = 6
      and concurrency = 2, OF j fatal good enough]
  obtain bs e where e: "?remote 4 (?ids ! 4) 0 = Inl e"
    and r: "deleteBatch ?ids 2 6 ?remote [0, 0, 0, 0, 0, 0, 0, 0, 0, 0] =
         Some (Inr (length ?ids - 1), bs)"
    and p: "processed bs = length ?ids"
    and f: "filter isDeleteFailed (console bs) =
         [DeleteFailed (?ids ! 4) None (failureMessage (code e) (message e) 0)]"
    by blast
  from e have "e = \<lparr>code = Some 15, message = lit ''Access denied''\<rparr>" by simp
  with f msg have "filter isDeleteFailed (console bs) =
      [DeleteFailed 105 None (lit ''VK API failed: code=15, msg=Access denied, attempt=0'')]"
    by simp
  with r p show ?thesis by auto
qed

end
